theory Spec2Isabelle
  imports Main "HOL-Library.AList"
begin

section \<open>Values, members, objects and the heap\<close>

text \<open>
  The library works on JavaScript objects: it reads and rewires prototype links, copies
  property descriptors, and replaces the \<open>Symbol.hasInstance\<close> member of constructors.
  The embedding therefore keeps an explicit heap. An object has a prototype link
  (\<open>None\<close> is \<open>null\<close>), an ordered table of own members with their descriptor flags, the
  extensible flag, and, when it is a class, its constructor.
  Members are data properties; accessor pairs are outside the model.
\<close>

type_synonym addr = nat

datatype error = TypeError

datatype key = Name string | SymHasInstance | SymMixOf | SymReuse

text \<open>
  The only function values stored in members are the two kinds of type-check predicate:
  the built-in \<open>Function.prototype[Symbol.hasInstance]\<close> and the arrow function that
  \<open>clonePrototype\<close> installs, a closure over \<open>originalInstanceOf\<close> and \<open>clone\<close>.
  A class that declares a \<open>static [Symbol.hasInstance]\<close> handler of its own is outside the
  model.
\<close>

datatype val = VUndefined | VNull | VBool bool | VNum int | VStr string
  | VRef addr | VArr "val list" | VFn fn
and fn = FunctionPrototypeHasInstance | HasInstanceWrapper val addr

record member =
  pval :: val
  writable :: bool
  enumerable :: bool
  configurable :: bool

type_synonym members = "(key \<times> member) list"

text \<open>
  The classes handed to \<open>Mix\<close> are input. What the constructor of such a class does to the
  object under construction is a sequence of writes computed from the arguments: an
  assignment \<open>this.k = v\<close>, or a definition (a class field, which defines an enumerable,
  writable and configurable member, or \<open>Object.defineProperty(this, k, d)\<close>). The
  constructor may also throw. A derived class, \<open>class X extends P\<close>, first calls \<open>super\<close>
  with arguments computed from its own. The third kind of constructor is the one of the
  class \<open>create\<close> that \<open>Mix\<close> builds, a closure over \<open>constructors\<close>.
\<close>

datatype action = Assign key val | Define key member

datatype ctor =
    Base "val list \<Rightarrow> error + action list"
  | Derived "val list \<Rightarrow> val list" "val list \<Rightarrow> error + action list"
  | Create "addr list"

record obj =
  proto :: "addr option"
  props :: members
  extensible :: bool
  construct :: "ctor option"

record heap =
  cells :: "addr \<Rightarrow> obj"
  fresh :: addr

text \<open>
  A computation either does not return (\<open>None\<close>: a walk along a cyclic prototype chain),
  throws (\<open>Some (Inl e)\<close>) or returns (\<open>Some (Inr x)\<close>).
\<close>

type_synonym 'a res = "(error + 'a) option"

abbreviation ok :: "'a \<Rightarrow> 'a res" where
  "ok x \<equiv> Some (Inr x)"

abbreviation throw :: "error \<Rightarrow> 'a res" where
  "throw e \<equiv> Some (Inl e)"

definition bindR :: "'a res \<Rightarrow> ('a \<Rightarrow> 'b res) \<Rightarrow> 'b res" where
  "bindR m f = (case m of None \<Rightarrow> None | Some (Inl e) \<Rightarrow> Some (Inl e) | Some (Inr x) \<Rightarrow> f x)"

definition liftE :: "error + 'a \<Rightarrow> 'a res" where
  "liftE r = Some r"

definition liftD :: "'a option \<Rightarrow> 'a res" where
  "liftD m = map_option Inr m"

definition Object_prototype :: addr where
  "Object_prototype = 0"

definition Function_prototype :: addr where
  "Function_prototype = 1"

definition dataProp :: "val \<Rightarrow> bool \<Rightarrow> bool \<Rightarrow> bool \<Rightarrow> member" where
  "dataProp v w e c = \<lparr>pval = v, writable = w, enumerable = e, configurable = c\<rparr>"

definition alloc :: "heap \<Rightarrow> obj \<Rightarrow> addr \<times> heap" where
  "alloc h ob = (fresh h, h\<lparr>cells := (cells h)(fresh h := ob), fresh := Suc (fresh h)\<rparr>)"

definition storeObj :: "heap \<Rightarrow> addr \<Rightarrow> obj \<Rightarrow> heap" where
  "storeObj h a ob = h\<lparr>cells := (cells h)(a := ob)\<rparr>"

definition storeProp :: "heap \<Rightarrow> addr \<Rightarrow> key \<Rightarrow> member \<Rightarrow> heap" where
  "storeProp h a k p = storeObj h a ((cells h a)\<lparr>props := AList.update k p (props (cells h a))\<rparr>)"

section \<open>The built-in operations the library calls\<close>

definition getPrototypeOf :: "heap \<Rightarrow> addr \<Rightarrow> addr option" where
  "getPrototypeOf h a = proto (cells h a)"

definition getOwnProperty :: "heap \<Rightarrow> addr \<Rightarrow> key \<Rightarrow> member option" where
  "getOwnProperty h a k = map_of (props (cells h a)) k"

text \<open>Member lookup: the first object on the prototype chain of \<open>a\<close> (itself included) that owns \<open>k\<close>.\<close>

partial_function (option) findProperty :: "heap \<Rightarrow> addr \<Rightarrow> key \<Rightarrow> member option option" where
  "findProperty h a k =
     (case getOwnProperty h a k of
        Some p \<Rightarrow> Some (Some p)
      | None \<Rightarrow> (case getPrototypeOf h a of
                   None \<Rightarrow> Some None
                 | Some b \<Rightarrow> findProperty h b k))"

text \<open>\<open>o[k]\<close>: the value found by member lookup, \<open>undefined\<close> when no object on the chain owns \<open>k\<close>.\<close>

definition getMember :: "heap \<Rightarrow> addr \<Rightarrow> key \<Rightarrow> val option" where
  "getMember h a k =
     map_option (\<lambda>r. case r of None \<Rightarrow> VUndefined | Some p \<Rightarrow> pval p) (findProperty h a k)"

text \<open>\<open>k in o\<close>.\<close>

definition hasProperty :: "heap \<Rightarrow> addr \<Rightarrow> key \<Rightarrow> bool option" where
  "hasProperty h a k = map_option (\<lambda>r. r \<noteq> None) (findProperty h a k)"

text \<open>
  \<open>Object.defineProperty(o, k, d)\<close> with a complete data descriptor: a new member needs an
  extensible object; an existing member that is not configurable accepts only a descriptor
  that changes nothing it protects.
\<close>

definition defineProperty :: "heap \<Rightarrow> addr \<Rightarrow> key \<Rightarrow> member \<Rightarrow> error + heap" where
  "defineProperty h a k d =
     (case getOwnProperty h a k of
        None \<Rightarrow> if extensible (cells h a) then Inr (storeProp h a k d) else Inl TypeError
      | Some cur \<Rightarrow>
          if configurable cur then Inr (storeProp h a k d)
          else if configurable d \<or> enumerable d \<noteq> enumerable cur then Inl TypeError
          else if \<not> writable cur \<and> (writable d \<or> pval d \<noteq> pval cur) then Inl TypeError
          else Inr (storeProp h a k d))"

text \<open>
  \<open>o[k] = v\<close> in strict code: the member found by lookup must be writable; the value then
  goes into the own member of \<open>o\<close>, which is created (writable, enumerable, configurable)
  when \<open>o\<close> does not own \<open>k\<close> and is extensible.
\<close>

definition setMember :: "heap \<Rightarrow> addr \<Rightarrow> key \<Rightarrow> val \<Rightarrow> heap res" where
  "setMember h a k v =
     (case findProperty h a k of
        None \<Rightarrow> None
      | Some found \<Rightarrow>
          if (case found of Some p \<Rightarrow> \<not> writable p | None \<Rightarrow> False) then throw TypeError
          else (case getOwnProperty h a k of
                  Some cur \<Rightarrow> ok (storeProp h a k (cur\<lparr>pval := v\<rparr>))
                | None \<Rightarrow> if extensible (cells h a)
                          then ok (storeProp h a k (dataProp v True True True))
                          else throw TypeError))"

section \<open>\<open>hasPrototype\<close>\<close>

partial_function (option) hasPrototype_loop :: "heap \<Rightarrow> addr option \<Rightarrow> addr \<Rightarrow> bool option" where
  "hasPrototype_loop h currentInstancePrototype prototype =
     (case currentInstancePrototype of
        None \<Rightarrow> Some False
      | Some c \<Rightarrow> if c = prototype then Some True
                  else hasPrototype_loop h (getPrototypeOf h c) prototype)"

definition hasPrototype :: "heap \<Rightarrow> addr \<Rightarrow> addr \<Rightarrow> bool option" where
  "hasPrototype h instance prototype = hasPrototype_loop h (getPrototypeOf h instance) prototype"

text \<open>
  \<open>Object.setPrototypeOf(o, p)\<close>: nothing to do when \<open>p\<close> is already the prototype; otherwise
  \<open>o\<close> must be extensible and must not lie on the chain that starts at \<open>p\<close>. The built-in's
  cycle check is the loop of \<open>hasPrototype\<close>, started at \<open>p\<close> itself.
\<close>

definition setPrototypeOf :: "heap \<Rightarrow> addr \<Rightarrow> addr option \<Rightarrow> heap res" where
  "setPrototypeOf h a p =
     (if p = getPrototypeOf h a then ok h
      else if \<not> extensible (cells h a) then throw TypeError
      else (case hasPrototype_loop h p a of
              None \<Rightarrow> None
            | Some True \<Rightarrow> throw TypeError
            | Some False \<Rightarrow> ok (storeObj h a ((cells h a)\<lparr>proto := p\<rparr>))))"

section \<open>The \<open>instanceof\<close> operator\<close>

text \<open>
  \<open>OrdinaryHasInstance(C, x)\<close>: false unless \<open>C\<close> is callable; otherwise \<open>C.prototype\<close> must
  be an object and is searched on the prototype chain of \<open>x\<close>.
\<close>

definition ordinaryHasInstance :: "heap \<Rightarrow> val \<Rightarrow> addr \<Rightarrow> bool res" where
  "ordinaryHasInstance h C x =
     (case C of
        VRef c \<Rightarrow>
          if construct (cells h c) = None then ok False
          else (case getMember h c (Name ''prototype'') of
                  None \<Rightarrow> None
                | Some (VRef p) \<Rightarrow> liftD (hasPrototype_loop h (getPrototypeOf h x) p)
                | Some _ \<Rightarrow> throw TypeError)
      | _ \<Rightarrow> ok False)"

text \<open>
  Calling a type-check predicate with a given \<open>this\<close>. The built-in one runs
  \<open>OrdinaryHasInstance(this, x)\<close>. The wrapper is the arrow function
  \<open>(instance) => originalInstanceOf?.(instance) || hasPrototype(instance, clone)\<close>: it
  ignores its own \<open>this\<close> and calls \<open>originalInstanceOf\<close> as a plain function, that is with
  \<open>this\<close> undefined.
\<close>

fun callHasInstance :: "heap \<Rightarrow> fn \<Rightarrow> val \<Rightarrow> addr \<Rightarrow> bool res" where
  "callHasInstance h FunctionPrototypeHasInstance thisArg x = ordinaryHasInstance h thisArg x"
| "callHasInstance h (HasInstanceWrapper VUndefined clone) thisArg x = liftD (hasPrototype h x clone)"
| "callHasInstance h (HasInstanceWrapper VNull clone) thisArg x = liftD (hasPrototype h x clone)"
| "callHasInstance h (HasInstanceWrapper (VFn originalInstanceOf) clone) thisArg x =
     bindR (callHasInstance h originalInstanceOf VUndefined x)
       (\<lambda>r. if r then ok True else liftD (hasPrototype h x clone))"
| "callHasInstance h (HasInstanceWrapper _ clone) thisArg x = throw TypeError"

text \<open>\<open>x instanceof C\<close> for objects \<open>x\<close> and \<open>C\<close>.\<close>

definition instanceof :: "heap \<Rightarrow> addr \<Rightarrow> addr \<Rightarrow> bool res" where
  "instanceof h x C =
     (case getMember h C SymHasInstance of
        None \<Rightarrow> None
      | Some VUndefined \<Rightarrow>
          if construct (cells h C) = None then throw TypeError else ordinaryHasInstance h (VRef C) x
      | Some VNull \<Rightarrow>
          if construct (cells h C) = None then throw TypeError else ordinaryHasInstance h (VRef C) x
      | Some (VFn f) \<Rightarrow> callHasInstance h f (VRef C) x
      | Some _ \<Rightarrow> throw TypeError)"

section \<open>\<open>reuse\<close>\<close>

definition reuse :: "heap \<Rightarrow> val \<Rightarrow> val \<Rightarrow> (val \<times> heap) res" where
  "reuse h container v =
     (case container of
        VRef c \<Rightarrow>
          (case hasProperty h c SymReuse of
             None \<Rightarrow> None
           | Some True \<Rightarrow> bindR (liftD (getMember h c SymReuse)) (\<lambda>stored. ok (stored, h))
           | Some False \<Rightarrow>
               bindR (liftE (defineProperty h c SymReuse (dataProp v False False False)))
                 (\<lambda>h'. ok (v, h')))
      | _ \<Rightarrow> throw TypeError)"

section \<open>\<open>clonePrototype\<close> and \<open>clonePrototypeDeep\<close>\<close>

text \<open>
  \<open>Object.create(null, Object.getOwnPropertyDescriptors(prototype))\<close> allocates an object
  without prototype that owns a copy of every own member of \<open>prototype\<close>, flags included.
  The source reads \<open>prototype.constructor\<close> twice, before and after the assignment to
  \<open>clone.constructor\<close>; so does the model. A \<open>constructor\<close> that is not an object makes the
  source throw (at the member access when it is nullish, at \<open>Object.defineProperty\<close>
  otherwise).
\<close>

definition clonePrototype :: "heap \<Rightarrow> addr \<Rightarrow> (addr \<times> heap) res" where
  "clonePrototype h prototype =
     (case alloc h \<lparr>proto = None, props = props (cells h prototype),
                    extensible = True, construct = None\<rparr> of
        (clone, h1) \<Rightarrow>
          bindR (liftD (getMember h1 prototype (Name ''constructor''))) (\<lambda>ctor.
          bindR (setMember h1 clone (Name ''constructor'') ctor) (\<lambda>h2.
          bindR (liftD (getMember h2 prototype (Name ''constructor''))) (\<lambda>ctor'.
            (case ctor' of
               VRef c \<Rightarrow>
                 bindR (liftD (getMember h2 c SymHasInstance)) (\<lambda>originalInstanceOf.
                 bindR (liftE (defineProperty h2 c SymHasInstance
                          (dataProp (VFn (HasInstanceWrapper originalInstanceOf clone))
                             True False True))) (\<lambda>h3.
                 ok (clone, h3)))
             | _ \<Rightarrow> throw TypeError)))))"

partial_function (option) clonePrototypeDeep_loop ::
    "heap \<Rightarrow> addr \<Rightarrow> addr option \<Rightarrow> (error + addr \<times> heap) option" where
  "clonePrototypeDeep_loop h lastPrototype nextPrototype =
     (case nextPrototype of
        None \<Rightarrow> ok (lastPrototype, h)
      | Some n \<Rightarrow>
          if n = Object_prototype then ok (lastPrototype, h)
          else (case clonePrototype h n of
                  None \<Rightarrow> None
                | Some (Inl e) \<Rightarrow> throw e
                | Some (Inr (nextPrototypeClone, h1)) \<Rightarrow>
                    (case setPrototypeOf h1 lastPrototype (Some nextPrototypeClone) of
                       None \<Rightarrow> None
                     | Some (Inl e) \<Rightarrow> throw e
                     | Some (Inr h2) \<Rightarrow>
                         clonePrototypeDeep_loop h2 nextPrototypeClone (getPrototypeOf h2 n))))"

text \<open>The result is the triple \<open>(prototype, lastPrototype, heap)\<close>.\<close>

definition clonePrototypeDeep :: "heap \<Rightarrow> addr \<Rightarrow> (addr \<times> addr \<times> heap) res" where
  "clonePrototypeDeep h prototype =
     bindR (clonePrototype h prototype) (\<lambda>(clone, h1).
     bindR (clonePrototypeDeep_loop h1 clone (getPrototypeOf h1 prototype)) (\<lambda>(lastPrototype, h2).
     ok (clone, lastPrototype, h2)))"

section \<open>\<open>Mix\<close>\<close>

text \<open>A value used where the source needs an object: anything else throws.\<close>

definition asObject :: "val \<Rightarrow> addr res" where
  "asObject v = (case v of VRef a \<Rightarrow> ok a | _ \<Rightarrow> throw TypeError)"

text \<open>A value used as a prototype: an object or \<open>null\<close>.\<close>

definition asProto :: "val \<Rightarrow> addr option res" where
  "asProto v = (case v of VRef a \<Rightarrow> ok (Some a) | VNull \<Rightarrow> ok None | _ \<Rightarrow> throw TypeError)"

subsection \<open>1. Build the prototype chain\<close>

text \<open>
  The loop over \<open>constructors.slice(1)\<close>. After linking, \<open>lastPrototype\<close> becomes
  \<open>Object.getPrototypeOf(lastPrototype)\<close>, which is the head of the duplicate chain just
  attached.
\<close>

fun linkPrototypes :: "heap \<Rightarrow> addr option \<Rightarrow> addr list \<Rightarrow> (addr option \<times> heap) res" where
  "linkPrototypes h lastPrototype [] = ok (lastPrototype, h)"
| "linkPrototypes h lastPrototype (nextConstructor # rest) =
     bindR (liftD (getMember h nextConstructor (Name ''prototype''))) (\<lambda>pv.
     bindR (asObject pv) (\<lambda>p.
     bindR (clonePrototypeDeep h p) (\<lambda>(clone, _, h1).
       (case lastPrototype of
          None \<Rightarrow> throw TypeError
        | Some l \<Rightarrow>
            bindR (setPrototypeOf h1 l (Some clone)) (\<lambda>h2.
            linkPrototypes h2 (getPrototypeOf h2 l) rest)))))"

subsection \<open>2. Create the constructor that composes all other constructors\<close>

text \<open>
  Evaluating \<open>class extends firstConstructor { static [mixOf] = constructors; ... }\<close>: the
  superclass must be a constructor and its \<open>prototype\<close> an object or \<open>null\<close>. The class
  object owns \<open>length\<close>, \<open>name\<close> and \<open>prototype\<close> (none of them writable) and the static
  field; its prototype object owns \<open>constructor\<close>. What the constructor of the class does
  when it is called is the case \<open>Create\<close> of \<open>Construct\<close> below.
\<close>

definition createClass :: "heap \<Rightarrow> addr list \<Rightarrow> (addr \<times> heap) res" where
  "createClass h constructors =
     (case construct (cells h (hd constructors)) of
        None \<Rightarrow> throw TypeError
      | Some _ \<Rightarrow>
          bindR (liftD (getMember h (hd constructors) (Name ''prototype''))) (\<lambda>pv.
          bindR (asProto pv) (\<lambda>protoParent.
            (case alloc h \<lparr>proto = protoParent, props = [], extensible = True, construct = None\<rparr> of
               (createPrototype, h1) \<Rightarrow>
                 (case alloc h1
                    \<lparr>proto = Some (hd constructors),
                     props = [(Name ''length'', dataProp (VNum 0) False False True),
                              (Name ''name'', dataProp (VStr ''create'') False False True),
                              (Name ''prototype'', dataProp (VRef createPrototype) False False False),
                              (SymMixOf, dataProp (VArr (map VRef constructors)) True True True)],
                     extensible = True,
                     construct = Some (Create constructors)\<rparr> of
                    (create, h2) \<Rightarrow>
                      ok (create, storeProp h2 createPrototype (Name ''constructor'')
                                    (dataProp (VRef create) True False True)))))))"

subsection \<open>4. Assign static properties\<close>

text \<open>
  \<open>Object.assign(target, source)\<close>: the own keys of \<open>source\<close> are taken first; each one
  that is still an own enumerable member is read and assigned to \<open>target\<close>, and the
  assignment looks the key up on the prototype chain of \<open>target\<close>.
\<close>

definition ownKeys :: "members \<Rightarrow> key list" where
  "ownKeys ms = remdups (map fst ms)"

fun objectAssign_keys :: "heap \<Rightarrow> addr \<Rightarrow> addr \<Rightarrow> key list \<Rightarrow> heap res" where
  "objectAssign_keys h target source [] = ok h"
| "objectAssign_keys h target source (k # ks) =
     (case getOwnProperty h source k of
        Some d \<Rightarrow>
          if enumerable d
          then bindR (liftD (getMember h source k)) (\<lambda>v.
               bindR (setMember h target k v) (\<lambda>h'.
               objectAssign_keys h' target source ks))
          else objectAssign_keys h target source ks
      | None \<Rightarrow> objectAssign_keys h target source ks)"

definition objectAssign :: "heap \<Rightarrow> addr \<Rightarrow> addr \<Rightarrow> heap res" where
  "objectAssign h target source =
     objectAssign_keys h target source (ownKeys (props (cells h source)))"

fun assignStatics :: "heap \<Rightarrow> addr \<Rightarrow> addr list \<Rightarrow> heap res" where
  "assignStatics h create [] = ok h"
| "assignStatics h create (nextConstructor # rest) =
     bindR (objectAssign h create nextConstructor) (\<lambda>h'. assignStatics h' create rest)"

subsection \<open>The whole function\<close>

text \<open>\<open>class {}\<close>, returned for an empty list of constructors.\<close>

definition emptyClass :: "heap \<Rightarrow> addr \<times> heap" where
  "emptyClass h =
     (case alloc h \<lparr>proto = Some Object_prototype, props = [], extensible = True, construct = None\<rparr> of
        (p, h1) \<Rightarrow>
          (case alloc h1
             \<lparr>proto = Some Function_prototype,
              props = [(Name ''length'', dataProp (VNum 0) False False True),
                       (Name ''name'', dataProp (VStr []) False False True),
                       (Name ''prototype'', dataProp (VRef p) False False False)],
              extensible = True,
              construct = Some (Base (\<lambda>args. Inr []))\<rparr> of
             (c, h2) \<Rightarrow>
               (c, storeProp h2 p (Name ''constructor'') (dataProp (VRef c) True False True))))"

definition Mix :: "heap \<Rightarrow> addr list \<Rightarrow> (addr \<times> heap) res" where
  "Mix h constructors =
     (case constructors of
        [] \<Rightarrow> ok (emptyClass h)
      | [firstConstructor] \<Rightarrow> ok (firstConstructor, h)
      | firstConstructor # rest \<Rightarrow>
          bindR (liftD (getMember h firstConstructor (Name ''prototype''))) (\<lambda>fpv.
          bindR (asObject fpv) (\<lambda>fp.
          bindR (clonePrototypeDeep h fp) (\<lambda>(prototype, lastPrototype, h1).
          bindR (linkPrototypes h1 (Some lastPrototype) rest) (\<lambda>(lastPrototype', h2).
          bindR (liftD (getMember h2 (last constructors) (Name ''prototype''))) (\<lambda>lpv.
          bindR (asProto lpv) (\<lambda>lp.
          bindR (case lastPrototype' of
                   None \<Rightarrow> throw TypeError
                 | Some l \<Rightarrow> setPrototypeOf h2 l lp) (\<lambda>h3.
          bindR (createClass h3 constructors) (\<lambda>(create, h4).
          bindR (liftD (getMember h4 create (Name ''prototype''))) (\<lambda>cpv.
          bindR (asObject cpv) (\<lambda>cp.
          bindR (setPrototypeOf h4 cp (Some prototype)) (\<lambda>h5.
          bindR (assignStatics h5 create constructors) (\<lambda>h6.
          ok (create, h6))))))))))))))"

section \<open>Constructing instances\<close>

text \<open>The spread \<open>...v\<close> of an argument group: arrays and strings are iterable.\<close>

definition spread :: "val \<Rightarrow> error + val list" where
  "spread v = (case v of VArr xs \<Rightarrow> Inr xs | VStr s \<Rightarrow> Inr (map (\<lambda>c. VStr [c]) s)
               | _ \<Rightarrow> Inl TypeError)"

text \<open>\<open>parameters[i]\<close>: \<open>undefined\<close> beyond the end of the array.\<close>

definition parameterAt :: "val list \<Rightarrow> nat \<Rightarrow> val" where
  "parameterAt parameters i = (if i < length parameters then parameters ! i else VUndefined)"

text \<open>
  The writes of a constructor, in order, on the object under construction. An assignment
  goes through the prototype chain of \<open>this\<close> and throws when the member it finds there is
  read-only.
\<close>

fun runActions :: "heap \<Rightarrow> addr \<Rightarrow> action list \<Rightarrow> heap res" where
  "runActions h this [] = ok h"
| "runActions h this (Assign k v # rest) =
     bindR (setMember h this k v) (\<lambda>h'. runActions h' this rest)"
| "runActions h this (Define k d # rest) =
     bindR (liftE (defineProperty h this k d)) (\<lambda>h'. runActions h' this rest)"

text \<open>
  The \<open>forEach\<close> over \<open>constructors.slice(1)\<close>, with its running \<open>index\<close>:
  \<open>Object.assign(this, new nextConstructor(...parameters[index + 1]))\<close>. The parameter
  \<open>new\<close> is the operator \<open>new\<close>.
\<close>

fun create_forEach ::
    "(heap \<Rightarrow> addr \<Rightarrow> val list \<Rightarrow> (addr \<times> heap) res) \<Rightarrow> heap \<Rightarrow> addr \<Rightarrow> addr list
       \<Rightarrow> val list \<Rightarrow> nat \<Rightarrow> heap res" where
  "create_forEach new h this [] parameters index = ok h"
| "create_forEach new h this (nextConstructor # rest) parameters index =
     (case spread (parameterAt parameters (index + 1)) of
        Inl e \<Rightarrow> throw e
      | Inr args \<Rightarrow>
          bindR (new h nextConstructor args) (\<lambda>(tmp, h1).
          bindR (objectAssign h1 this tmp) (\<lambda>h2.
          create_forEach new h2 this rest parameters (index + 1))))"

text \<open>
  \<open>Construct(F, args, newTarget)\<close>, the call of a constructor; \<open>n\<close> bounds the depth of
  nested constructor calls, and a call that would go deeper does not return. The
  constructor of a base class allocates the object, whose prototype is
  \<open>newTarget.prototype\<close> (the realm's \<open>Object.prototype\<close> when that is no object), and
  runs its writes on it. The constructor of a derived class calls its parent, which is the
  prototype of the class object. So does the constructor of \<open>create\<close>, in
  \<open>super(...parameters[0])\<close>, before its \<open>forEach\<close>.
\<close>

fun Construct :: "nat \<Rightarrow> heap \<Rightarrow> addr \<Rightarrow> addr \<Rightarrow> val list \<Rightarrow> (addr \<times> heap) res" where
  "Construct 0 h F newTarget args = None"
| "Construct (Suc n) h F newTarget args =
     (case construct (cells h F) of
        None \<Rightarrow> throw TypeError
      | Some (Base body) \<Rightarrow>
          bindR (liftD (getMember h newTarget (Name ''prototype''))) (\<lambda>pv.
            (case alloc h \<lparr>proto = Some (case pv of VRef p \<Rightarrow> p | _ \<Rightarrow> Object_prototype),
                           props = [], extensible = True, construct = None\<rparr> of
               (this, h1) \<Rightarrow>
                 bindR (liftE (body args)) (\<lambda>actions.
                 bindR (runActions h1 this actions) (\<lambda>h2. ok (this, h2)))))
      | Some (Derived superArgs body) \<Rightarrow>
          (case getPrototypeOf h F of
             None \<Rightarrow> throw TypeError
           | Some parent \<Rightarrow>
               bindR (Construct n h parent newTarget (superArgs args)) (\<lambda>(this, h1).
               bindR (liftE (body args)) (\<lambda>actions.
               bindR (runActions h1 this actions) (\<lambda>h2. ok (this, h2)))))
      | Some (Create constructors) \<Rightarrow>
          bindR (liftE (spread (parameterAt args 0))) (\<lambda>superArgs.
            (case getPrototypeOf h F of
               None \<Rightarrow> throw TypeError
             | Some parent \<Rightarrow>
                 bindR (Construct n h parent newTarget superArgs) (\<lambda>(this, h1).
                 bindR (create_forEach (\<lambda>h c xs. Construct n h c c xs) h1 this
                          (tl constructors) args 0) (\<lambda>h2.
                 ok (this, h2))))))"

text \<open>\<open>new C(...args)\<close>.\<close>

definition newObject :: "nat \<Rightarrow> heap \<Rightarrow> addr \<Rightarrow> val list \<Rightarrow> (addr \<times> heap) res" where
  "newObject n h C args = Construct n h C C args"

section \<open>Predicates in which the claims are stated\<close>

text \<open>
  An object is \<open>unaltered\<close> when its prototype link, its flags and every own member other
  than \<open>Symbol.hasInstance\<close> are what they were.
\<close>

definition unaltered :: "obj \<Rightarrow> obj \<Rightarrow> bool" where
  "unaltered ob ob' \<longleftrightarrow>
     proto ob' = proto ob \<and> extensible ob' = extensible ob \<and> construct ob' = construct ob
     \<and> (\<forall>k. k \<noteq> SymHasInstance \<longrightarrow> map_of (props ob') k = map_of (props ob) k)"

text \<open>
  \<open>consults n v w\<close>: the predicate \<open>v\<close> is \<open>w\<close> itself or a tower of wrappers, each around a
  duplicate allocated at or above address \<open>n\<close>, whose innermost \<open>originalInstanceOf\<close> is \<open>w\<close>.
\<close>

fun consults :: "addr \<Rightarrow> val \<Rightarrow> val \<Rightarrow> bool" where
  "consults n (VFn (HasInstanceWrapper orig clone)) w =
     (VFn (HasInstanceWrapper orig clone) = w \<or> (n \<le> clone \<and> consults n orig w))"
| "consults n v w = (v = w)"

text \<open>\<open>recognises v c\<close>: some wrapper in the tower \<open>v\<close> tests for the duplicate \<open>c\<close>.\<close>

fun recognises :: "val \<Rightarrow> addr \<Rightarrow> bool" where
  "recognises (VFn (HasInstanceWrapper orig clone)) c = (clone = c \<or> recognises orig c)"
| "recognises v c = False"

text \<open>
  A value that can be called the way the wrapper calls \<open>originalInstanceOf\<close>: nullish, the
  built-in predicate, or a wrapper around such a value.
\<close>

fun benign :: "val \<Rightarrow> bool" where
  "benign VUndefined = True"
| "benign VNull = True"
| "benign (VFn FunctionPrototypeHasInstance) = True"
| "benign (VFn (HasInstanceWrapper orig clone)) = benign orig"
| "benign v = False"

text \<open>Prototype links of objects below \<open>n\<close> lead to objects below \<open>n\<close>.\<close>

definition closedBelow :: "addr \<Rightarrow> heap \<Rightarrow> bool" where
  "closedBelow n h \<longleftrightarrow> (\<forall>a<n. \<forall>b. proto (cells h a) = Some b \<longrightarrow> b < n)"

text \<open>\<open>pathTo h s ps e\<close>: following prototype links from \<open>s\<close> visits exactly \<open>ps\<close> and arrives at \<open>e\<close>.\<close>

primrec pathTo :: "heap \<Rightarrow> addr option \<Rightarrow> addr list \<Rightarrow> addr option \<Rightarrow> bool" where
  "pathTo h s [] e \<longleftrightarrow> s = e"
| "pathTo h s (p # ps) e \<longleftrightarrow> s = Some p \<and> pathTo h (getPrototypeOf h p) ps e"

text \<open>
  A class below address \<open>n\<close>, as a class declaration leaves it: the constructor owns
  \<open>prototype\<close>, an object below \<open>n\<close> that owns \<open>constructor\<close>, which is the class again.
\<close>

definition classBelow :: "addr \<Rightarrow> heap \<Rightarrow> addr \<Rightarrow> bool" where
  "classBelow n h S \<longleftrightarrow>
     S < n
     \<and> (\<exists>p<n. map_option pval (getOwnProperty h S (Name ''prototype'')) = Some (VRef p)
            \<and> map_option pval (getOwnProperty h p (Name ''constructor'')) = Some (VRef S))"

text \<open>
  A source class: an allocated class whose type-check predicate, looked up through the
  constructor's prototype chain, is benign.
\<close>

definition isClass :: "heap \<Rightarrow> addr \<Rightarrow> bool" where
  "isClass h S \<longleftrightarrow>
     classBelow (fresh h) h S \<and> (\<exists>v. getMember h S SymHasInstance = Some v \<and> benign v)"

text \<open>
  \<open>advance n h h'\<close>: what a call may do to the objects that existed below address \<open>n\<close>.
  Each of them is unaltered, and where looking up its type-check predicate gave \<open>v\<close>
  before, it now gives a predicate that consults \<open>v\<close>.
\<close>

definition advance :: "addr \<Rightarrow> heap \<Rightarrow> heap \<Rightarrow> bool" where
  "advance n h h' \<longleftrightarrow>
     fresh h \<le> fresh h'
     \<and> (\<forall>a<n. unaltered (cells h a) (cells h' a)
           \<and> (\<forall>v. getMember h a SymHasInstance = Some v \<longrightarrow>
                 (\<exists>v'. getMember h' a SymHasInstance = Some v' \<and> consults n v' v)))"

text \<open>
  \<open>constructorTarget h c\<close>: some object of the heap owns a member \<open>constructor\<close> whose value
  is \<open>c\<close>. These are the objects on which \<open>clonePrototype\<close> can define \<open>Symbol.hasInstance\<close>;
  the prototype object of a class is none of them unless a \<open>constructor\<close> member was
  pointed at it.
\<close>

definition constructorTarget :: "heap \<Rightarrow> addr \<Rightarrow> bool" where
  "constructorTarget h c \<longleftrightarrow>
     (\<exists>p m. getOwnProperty h p (Name ''constructor'') = Some m \<and> pval m = VRef c)"

text \<open>
  \<open>grows n X h h'\<close>: besides \<open>advance\<close>, the prototype links of all objects allocated in \<open>h\<close>
  stay, those in \<open>X\<close> excepted, a heap whose prototype links lead to allocated objects
  keeps that property, no object becomes the value of a \<open>constructor\<close> member that was not
  one before, and the objects below \<open>n\<close> that are not such a value are left as they were.
\<close>

definition grows :: "addr \<Rightarrow> addr set \<Rightarrow> heap \<Rightarrow> heap \<Rightarrow> bool" where
  "grows n X h h' \<longleftrightarrow>
     advance n h h'
     \<and> (\<forall>a<fresh h. a \<notin> X \<longrightarrow> proto (cells h' a) = proto (cells h a))
     \<and> (closedBelow (fresh h) h \<longrightarrow> closedBelow (fresh h') h')
     \<and> (\<forall>c. constructorTarget h' c \<longrightarrow> constructorTarget h c)
     \<and> (\<forall>a<n. \<not> constructorTarget h a \<longrightarrow> cells h' a = cells h a)"

text \<open>
  What \<open>Object.assign\<close> copies for key \<open>k\<close> from a member table: the value of \<open>k\<close> when the
  table owns it as an enumerable member.
\<close>

definition enumerableIn :: "members \<Rightarrow> key \<Rightarrow> val option" where
  "enumerableIn ms k =
     (case map_of ms k of Some d \<Rightarrow> if enumerable d then Some (pval d) else None | None \<Rightarrow> None)"

text \<open>
  Copying from several member tables in turn, the later one wins: the value for \<open>k\<close> comes
  from the last table of the list that owns \<open>k\<close> as an enumerable member.
\<close>

fun lastEnumerable :: "members list \<Rightarrow> key \<Rightarrow> val option" where
  "lastEnumerable [] k = None"
| "lastEnumerable (ms # rest) k =
     (case lastEnumerable rest k of Some v \<Rightarrow> Some v | None \<Rightarrow> enumerableIn ms k)"


section \<open>Programs and heaps used to run the code\<close>

text \<open>The value a computation returns, without the heap.\<close>

definition resultOf :: "('a \<times> heap) res \<Rightarrow> 'a res" where
  "resultOf r = map_option (map_sum id fst) r"

text \<open>\<open>reuse(c1, v1); return reuse(c2, v2)\<close>.\<close>

definition reuseTwice :: "heap \<Rightarrow> val \<Rightarrow> val \<Rightarrow> val \<Rightarrow> val \<Rightarrow> (val \<times> heap) res" where
  "reuseTwice h c1 v1 c2 v2 = bindR (reuse h c1 v1) (\<lambda>(r, h1). reuse h1 c2 v2)"

definition plainObj :: "addr option \<Rightarrow> members \<Rightarrow> bool \<Rightarrow> obj" where
  "plainObj p ms e = \<lparr>proto = p, props = ms, extensible = e, construct = None\<rparr>"

text \<open>
  The realm: \<open>Object.prototype\<close> at address 0 and \<open>Function.prototype\<close>, which owns the
  built-in type-check predicate, at address 1.
\<close>

definition realm :: "addr \<Rightarrow> obj" where
  "realm = (\<lambda>_. plainObj None [] True)
     (0 := plainObj None [] True,
      1 := plainObj (Some 0)
             [(SymHasInstance, dataProp (VFn FunctionPrototypeHasInstance) False False False)] True)"

text \<open>
  Three containers: an ordinary object (2), an object that inherits from it (3), and an
  object on which \<open>Object.preventExtensions\<close> was called (4).
\<close>

definition reuseHeap :: heap where
  "reuseHeap = \<lparr>cells = realm (2 := plainObj (Some 0) [] True, 3 := plainObj (Some 2) [] True,
       4 := plainObj (Some 0) [] False), fresh = 5\<rparr>"

text \<open>
  A class object (own \<open>length\<close>, the number of parameters of its constructor, \<open>name\<close>
  and \<open>prototype\<close>, then its static members, and its parent as prototype link) and
  its prototype object (own \<open>constructor\<close>, then its methods). The value of a method is
  irrelevant to composition and is written as a string.
\<close>

definition classObj :: "string \<Rightarrow> int \<Rightarrow> addr \<Rightarrow> addr \<Rightarrow> members \<Rightarrow> ctor \<Rightarrow> obj" where
  "classObj nm arity parent p statics init =
    \<lparr>proto = Some parent,
     props = [(Name ''length'', dataProp (VNum arity) False False True),
              (Name ''name'', dataProp (VStr nm) False False True),
              (Name ''prototype'', dataProp (VRef p) False False False)] @ statics,
     extensible = True, construct = Some init\<rparr>"

definition protoObj :: "addr \<Rightarrow> addr \<Rightarrow> members \<Rightarrow> obj" where
  "protoObj parent c methods =
    \<lparr>proto = Some parent,
     props = (Name ''constructor'', dataProp (VRef c) True False True) # methods,
     extensible = True, construct = None\<rparr>"

text \<open>
  Two classes: \<open>A\<close> (2, prototype 3) with \<open>static value = "a"\<close>,
  \<open>constructor(arg) { this.a = arg }\<close> and a method \<open>makeA\<close>; \<open>B\<close> (4, prototype 5) with
  \<open>static value = "b"\<close>, \<open>constructor(arg) { this.b = arg }\<close> and a method \<open>makeB\<close>.
\<close>

definition classA :: obj where
  "classA = classObj ''A'' 1 1 3 [(Name ''value'', dataProp (VStr ''a'') True True True)]
             (Base (\<lambda>args. Inr [Assign (Name ''a'') (parameterAt args 0)]))"

definition classB :: obj where
  "classB = classObj ''B'' 1 1 5 [(Name ''value'', dataProp (VStr ''b'') True True True)]
             (Base (\<lambda>args. Inr [Assign (Name ''b'') (parameterAt args 0)]))"

definition abHeap :: heap where
  "abHeap = \<lparr>cells = realm
     (2 := classA,
      3 := protoObj 0 2 [(Name ''makeA'', dataProp (VStr ''makeA'') True False True)],
      4 := classB,
      5 := protoObj 0 4 [(Name ''makeB'', dataProp (VStr ''makeB'') True False True)]),
    fresh = 6\<rparr>"


text \<open>
  \<open>A\<close>, a class \<open>B0\<close> (4, prototype 5) with a method \<open>m\<close>, \<open>B1 extends B0\<close> (6, prototype 7)
  and a class \<open>C\<close> (8, prototype 9).
\<close>

definition ancestryHeap :: heap where
  "ancestryHeap = \<lparr>cells = realm
     (2 := classObj ''A'' 0 1 3 [] (Base (\<lambda>args. Inr [])),
      3 := protoObj 0 2 [],
      4 := classObj ''B0'' 0 1 5 [] (Base (\<lambda>args. Inr [])),
      5 := protoObj 0 4 [(Name ''m'', dataProp (VStr ''m'') True False True)],
      6 := classObj ''B1'' 0 4 7 [] (Derived (\<lambda>args. args) (\<lambda>args. Inr [])),
      7 := protoObj 5 6 [],
      8 := classObj ''C'' 0 1 9 [] (Base (\<lambda>args. Inr [])),
      9 := protoObj 0 8 []),
    fresh = 10\<rparr>"

text \<open>\<open>A\<close>, \<open>B\<close> and \<open>A1 extends A\<close> (6, prototype 7), all without members of their own.\<close>

definition subclassHeap :: heap where
  "subclassHeap = \<lparr>cells = realm
     (2 := classObj ''A'' 0 1 3 [] (Base (\<lambda>args. Inr [])),
      3 := protoObj 0 2 [],
      4 := classObj ''B'' 0 1 5 [] (Base (\<lambda>args. Inr [])),
      5 := protoObj 0 4 [],
      6 := classObj ''A1'' 0 2 7 [] (Derived (\<lambda>args. args) (\<lambda>args. Inr [])),
      7 := protoObj 3 6 []),
    fresh = 8\<rparr>"

text \<open>
  \<open>A\<close> and \<open>B\<close> again, a class \<open>RA\<close> (6, prototype 7) that is \<open>A\<close> with a read-only member
  \<open>b\<close> on its prototype object, and a class \<open>RB\<close> (8, prototype 9) that is \<open>B\<close> with a
  read-only member \<open>a\<close> on its prototype object.
\<close>

definition readOnlyHeap :: heap where
  "readOnlyHeap = \<lparr>cells = realm
     (2 := classA,
      3 := protoObj 0 2 [],
      4 := classB,
      5 := protoObj 0 4 [],
      6 := classObj ''RA'' 1 1 7 [] (Base (\<lambda>args. Inr [Assign (Name ''a'') (parameterAt args 0)])),
      7 := protoObj 0 6 [(Name ''b'', dataProp (VNum 0) False True False)],
      8 := classObj ''RB'' 1 1 9 [] (Base (\<lambda>args. Inr [Assign (Name ''b'') (parameterAt args 0)])),
      9 := protoObj 0 8 [(Name ''a'', dataProp (VNum 0) False True False)]),
    fresh = 10\<rparr>"

text \<open>
  The programs below take the bound \<open>n\<close> on the depth of nested constructor calls as
  their first argument.
\<close>

text \<open>\<open>return new C(...args)[k]\<close>.\<close>

definition memberOfNew :: "nat \<Rightarrow> heap \<Rightarrow> addr \<Rightarrow> val list \<Rightarrow> key \<Rightarrow> val res" where
  "memberOfNew n h C args k =
     bindR (newObject n h C args) (\<lambda>(x, h1). liftD (getMember h1 x k))"

text \<open>\<open>const M = Mix(...cs); return new M(...groups)[k]\<close>.\<close>

definition memberOfMixed :: "nat \<Rightarrow> heap \<Rightarrow> addr list \<Rightarrow> val list \<Rightarrow> key \<Rightarrow> val res" where
  "memberOfMixed n h cs groups k =
     bindR (Mix h cs) (\<lambda>(M, h1).
     bindR (newObject n h1 M groups) (\<lambda>(x, h2). liftD (getMember h2 x k)))"

text \<open>\<open>return Mix(...cs)[k]\<close>.\<close>

definition staticOfMixed :: "heap \<Rightarrow> addr list \<Rightarrow> key \<Rightarrow> val res" where
  "staticOfMixed h cs k = bindR (Mix h cs) (\<lambda>(M, h1). liftD (getMember h1 M k))"

text \<open>\<open>return new C(...args) instanceof T\<close>.\<close>

definition instanceofNew :: "nat \<Rightarrow> heap \<Rightarrow> addr \<Rightarrow> val list \<Rightarrow> addr \<Rightarrow> bool res" where
  "instanceofNew n h C args T = bindR (newObject n h C args) (\<lambda>(x, h1). instanceof h1 x T)"

text \<open>\<open>const x = new C(...args); Mix(...cs); return x instanceof T\<close>.\<close>

definition instanceofNewAfterMix ::
    "nat \<Rightarrow> heap \<Rightarrow> addr \<Rightarrow> val list \<Rightarrow> addr list \<Rightarrow> addr \<Rightarrow> bool res" where
  "instanceofNewAfterMix n h C args cs T =
     bindR (newObject n h C args) (\<lambda>(x, h1).
     bindR (Mix h1 cs) (\<lambda>(M, h2). instanceof h2 x T))"

text \<open>\<open>const M = Mix(...cs1); Mix(...cs2); return new M(...groups) instanceof T\<close>.\<close>

definition instanceofMixedAfterMix ::
    "nat \<Rightarrow> heap \<Rightarrow> addr list \<Rightarrow> addr list \<Rightarrow> val list \<Rightarrow> addr \<Rightarrow> bool res" where
  "instanceofMixedAfterMix n h cs1 cs2 groups T =
     bindR (Mix h cs1) (\<lambda>(M, h1).
     bindR (Mix h1 cs2) (\<lambda>(M2, h2).
     bindR (newObject n h2 M groups) (\<lambda>(x, h3). instanceof h3 x T)))"

text \<open>\<open>const M = Mix(...cs); const x = new M(...groups)\<close>, returning both with their heaps.\<close>

definition mixAndNew ::
    "nat \<Rightarrow> heap \<Rightarrow> addr list \<Rightarrow> val list \<Rightarrow> ((addr \<times> heap) \<times> (addr \<times> heap)) res" where
  "mixAndNew n h cs groups =
     bindR (Mix h cs) (\<lambda>(M, h1).
     bindR (newObject n h1 M groups) (\<lambda>(x, h2). ok ((M, h1), (x, h2))))"

text \<open>\<open>Mix(...cs); return S[Symbol.hasInstance]\<close>.\<close>

definition predicateAfterMix :: "heap \<Rightarrow> addr list \<Rightarrow> addr \<Rightarrow> val res" where
  "predicateAfterMix h cs S = bindR (Mix h cs) (\<lambda>(M, h1). liftD (getMember h1 S SymHasInstance))"

section \<open>Facts about the built-in operations and the functions of the library\<close>

subsection \<open>Results and the store\<close>

lemma bindR_simps [simp]:
  "bindR None f = None"
  "bindR (Some (Inl e)) f = Some (Inl e)"
  "bindR (Some (Inr x)) f = f x"
  by (simp_all add: bindR_def)

lemma liftD_simps [simp]: "liftD None = None" "liftD (Some x) = ok x"
  by (simp_all add: liftD_def)

lemma liftE_simps [simp]: "liftE r = Some r"
  by (simp add: liftE_def)

lemma bindR_okE:
  assumes "bindR m f = ok y"
  obtains x where "m = ok x" and "f x = ok y"
  using assms by (cases m) (auto simp: bindR_def split: sum.splits)

lemma liftD_ok [simp]: "liftD m = ok x \<longleftrightarrow> m = Some x"
  by (cases m) (auto simp: liftD_def)

lemma cells_storeObj [simp]: "cells (storeObj h a ob) b = (if b = a then ob else cells h b)"
  by (simp add: storeObj_def)

lemma fresh_storeObj [simp]: "fresh (storeObj h a ob) = fresh h"
  by (simp add: storeObj_def)

lemma fresh_storeProp [simp]: "fresh (storeProp h a k p) = fresh h"
  by (simp add: storeProp_def)

lemma proto_storeProp [simp]: "proto (cells (storeProp h a k p) b) = proto (cells h b)"
  by (simp add: storeProp_def)

lemma extensible_storeProp [simp]: "extensible (cells (storeProp h a k p) b) = extensible (cells h b)"
  by (simp add: storeProp_def)

lemma construct_storeProp [simp]: "construct (cells (storeProp h a k p) b) = construct (cells h b)"
  by (simp add: storeProp_def)

lemma getPrototypeOf_storeProp [simp]: "getPrototypeOf (storeProp h a k p) b = getPrototypeOf h b"
  by (simp add: getPrototypeOf_def)

lemma cells_storeProp_other: "b \<noteq> a \<Longrightarrow> cells (storeProp h a k p) b = cells h b"
  by (simp add: storeProp_def)

lemma getOwnProperty_storeProp [simp]:
  "getOwnProperty (storeProp h a k p) b j = (if b = a \<and> j = k then Some p else getOwnProperty h b j)"
  by (simp add: getOwnProperty_def storeProp_def storeObj_def update_conv')

subsection \<open>Member lookup\<close>

lemma findProperty_own: "getOwnProperty h a k = Some p \<Longrightarrow> findProperty h a k = Some (Some p)"
  by (subst findProperty.simps) simp

lemma findProperty_absent_own: "findProperty h a k = Some None \<Longrightarrow> getOwnProperty h a k = None"
  by (subst (asm) findProperty.simps) (simp split: option.splits)

lemma getMember_own:
  "getOwnProperty h a k = Some m \<Longrightarrow> getMember h a k = Some (pval m)"
  by (simp add: getMember_def findProperty_own)

lemma findProperty_frame_aux:
  "findProperty h a k = Some r \<Longrightarrow>
     a < n \<longrightarrow> closedBelow n h \<longrightarrow> (\<forall>b<n. cells h' b = cells h b) \<longrightarrow> findProperty h' a k = Some r"
proof (erule findProperty.raw_induct [where P = "\<lambda>h a k r.
     a < n \<longrightarrow> closedBelow n h \<longrightarrow> (\<forall>b<n. cells h' b = cells h b) \<longrightarrow> findProperty h' a k = Some r", rotated])
  fix rec h a k r
  assume IH: "\<And>h a k r. rec h a k = Some r \<Longrightarrow>
     a < n \<longrightarrow> closedBelow n h \<longrightarrow> (\<forall>b<n. cells h' b = cells h b) \<longrightarrow> findProperty h' a k = Some r"
  assume step: "(case getOwnProperty h a k of
        None \<Rightarrow> (case getPrototypeOf h a of None \<Rightarrow> Some None | Some b \<Rightarrow> rec h b k)
      | Some p \<Rightarrow> Some (Some p)) = Some r"
  show "a < n \<longrightarrow> closedBelow n h \<longrightarrow> (\<forall>b<n. cells h' b = cells h b) \<longrightarrow> findProperty h' a k = Some r"
  proof (intro impI)
    assume a: "a < n" and cl: "closedBelow n h" and same: "\<forall>b<n. cells h' b = cells h b"
    from a same have eq: "cells h' a = cells h a" by simp
    show "findProperty h' a k = Some r"
    proof (cases "getOwnProperty h a k")
      case (Some m)
      with eq have "getOwnProperty h' a k = Some m" by (simp add: getOwnProperty_def)
      then have "findProperty h' a k = Some (Some m)" by (rule findProperty_own)
      with step Some show ?thesis by simp
    next
      case None
      with eq have own': "getOwnProperty h' a k = None" by (simp add: getOwnProperty_def)
      show ?thesis
      proof (cases "getPrototypeOf h a")
        case None
        with eq have "getPrototypeOf h' a = None" by (simp add: getPrototypeOf_def)
        with own' step None \<open>getOwnProperty h a k = None\<close> show ?thesis
          by (subst findProperty.simps) simp
      next
        case (Some b)
        with eq have p': "getPrototypeOf h' a = Some b" by (simp add: getPrototypeOf_def)
        from Some a cl have "b < n" by (auto simp: closedBelow_def getPrototypeOf_def)
        moreover from step Some \<open>getOwnProperty h a k = None\<close> have "rec h b k = Some r" by simp
        ultimately have "findProperty h' b k = Some r" using IH cl same by blast
        with own' p' show ?thesis by (subst findProperty.simps) simp
      qed
    qed
  qed
qed

lemma findProperty_frame:
  "findProperty h a k = Some r \<Longrightarrow> a < n \<Longrightarrow> closedBelow n h \<Longrightarrow> \<forall>b<n. cells h' b = cells h b
     \<Longrightarrow> findProperty h' a k = Some r"
  using findProperty_frame_aux by blast

lemma getMember_frame:
  assumes "getMember h a k = Some v" and "a < n" and "closedBelow n h"
    and "\<forall>b<n. cells h' b = cells h b"
  shows "getMember h' a k = Some v"
proof -
  from assms(1) obtain r where r: "findProperty h a k = Some r"
    and v: "v = (case r of None \<Rightarrow> VUndefined | Some p \<Rightarrow> pval p)"
    by (auto simp: getMember_def)
  from r assms(2-4) have "findProperty h' a k = Some r" by (rule findProperty_frame)
  with v show ?thesis by (simp add: getMember_def)
qed

lemma findProperty_owner:
  "findProperty h a k = Some r \<Longrightarrow> (\<forall>m. r = Some m \<longrightarrow> (\<exists>q. getOwnProperty h q k = Some m))"
proof (erule findProperty.raw_induct [where P = "\<lambda>h a k r.
     \<forall>m. r = Some m \<longrightarrow> (\<exists>q. getOwnProperty h q k = Some m)", rotated])
  fix rec :: "heap \<Rightarrow> addr \<Rightarrow> key \<Rightarrow> member option option"
  fix h a k r
  assume IH: "\<And>h a k r. rec h a k = Some r \<Longrightarrow>
     \<forall>m. r = Some m \<longrightarrow> (\<exists>q. getOwnProperty h q k = Some m)"
  assume step: "(case getOwnProperty h a k of
        None \<Rightarrow> (case getPrototypeOf h a of None \<Rightarrow> Some None | Some b \<Rightarrow> rec h b k)
      | Some p \<Rightarrow> Some (Some p)) = Some r"
  show "\<forall>m. r = Some m \<longrightarrow> (\<exists>q. getOwnProperty h q k = Some m)"
  proof (cases "getOwnProperty h a k")
    case (Some m)
    with step show ?thesis by auto
  next
    case None
    with step IH show ?thesis by (cases "getPrototypeOf h a") auto
  qed
qed

lemma getMember_constructorTarget:
  assumes "getMember h a (Name ''constructor'') = Some (VRef c)"
  shows "constructorTarget h c"
proof -
  from assms obtain r where r: "findProperty h a (Name ''constructor'') = Some r"
    and v: "(case r of None \<Rightarrow> VUndefined | Some p \<Rightarrow> pval p) = VRef c"
    by (auto simp: getMember_def)
  from v obtain m where "r = Some m" "pval m = VRef c" by (cases r) auto
  with findProperty_owner [OF r] show ?thesis by (auto simp: constructorTarget_def)
qed

subsection \<open>What a successful built-in call did\<close>

lemma defineProperty_InrD: "defineProperty h a k d = Inr h' \<Longrightarrow> h' = storeProp h a k d"
  by (auto simp: defineProperty_def split: option.splits if_splits)

lemma setMember_okD:
  assumes "setMember h a k v = ok h'"
  shows "\<exists>m. h' = storeProp h a k m \<and> pval m = v"
    and "\<And>cur. getOwnProperty h a k = Some cur \<Longrightarrow> writable cur"
proof -
  from assms obtain found where f: "findProperty h a k = Some found"
    by (auto simp: setMember_def split: option.splits)
  show "\<exists>m. h' = storeProp h a k m \<and> pval m = v"
    using assms f by (auto simp: setMember_def dataProp_def split: option.splits if_splits)
  show "writable cur" if "getOwnProperty h a k = Some cur" for cur
  proof -
    from that have "findProperty h a k = Some (Some cur)" by (rule findProperty_own)
    with assms show ?thesis by (auto simp: setMember_def split: if_splits)
  qed
qed

lemma setMember_frame:
  assumes "setMember h a k v = ok h'"
  shows "fresh h' = fresh h" and "\<And>b. b \<noteq> a \<Longrightarrow> cells h' b = cells h b"
    and "proto (cells h' b) = proto (cells h b)"
    and "extensible (cells h' b) = extensible (cells h b)"
    and "construct (cells h' b) = construct (cells h b)"
    and "\<And>j. j \<noteq> k \<Longrightarrow> getOwnProperty h' b j = getOwnProperty h b j"
    and "map_option pval (getOwnProperty h' a k) = Some v"
    and "\<And>m. getOwnProperty h a k = Some m \<Longrightarrow> writable m"
proof -
  from setMember_okD(1) [OF assms] obtain m where h': "h' = storeProp h a k m" and m: "pval m = v"
    by blast
  show "fresh h' = fresh h" by (simp add: h')
  show "cells h' b = cells h b" if "b \<noteq> a" for b using that by (simp add: h' storeProp_def)
  show "proto (cells h' b) = proto (cells h b)" by (simp add: h')
  show "extensible (cells h' b) = extensible (cells h b)" by (simp add: h')
  show "construct (cells h' b) = construct (cells h b)" by (simp add: h')
  show "getOwnProperty h' b j = getOwnProperty h b j" if "j \<noteq> k" for j using that by (simp add: h')
  show "map_option pval (getOwnProperty h' a k) = Some v" by (simp add: h' m)
  show "writable m" if "getOwnProperty h a k = Some m" for m
    using that by (rule setMember_okD(2) [OF assms])
qed

lemma setPrototypeOf_okD:
  assumes "setPrototypeOf h a p = ok h'"
  shows "getPrototypeOf h' a = p" and "fresh h' = fresh h"
    and "\<And>b. b \<noteq> a \<Longrightarrow> cells h' b = cells h b"
    and "props (cells h' a) = props (cells h a)"
    and "extensible (cells h' a) = extensible (cells h a)"
    and "construct (cells h' a) = construct (cells h a)"
    and "p \<noteq> getPrototypeOf h a \<Longrightarrow> hasPrototype_loop h p a = Some False"
  using assms
  by (auto simp: setPrototypeOf_def getPrototypeOf_def split: if_splits option.splits bool.splits)

subsection \<open>Prototype paths and the chain search\<close>

lemma pathTo_cong:
  "(\<And>q. q \<in> set ps \<Longrightarrow> proto (cells h' q) = proto (cells h q)) \<Longrightarrow> pathTo h' s ps e = pathTo h s ps e"
  by (induction ps arbitrary: s) (auto simp: getPrototypeOf_def)

lemma pathTo_head: "pathTo h (Some c) seg (Some e) \<Longrightarrow> c \<in> set seg \<union> {e}"
  by (cases seg) auto

lemma pathTo_append:
  "pathTo h s ps (Some m) \<Longrightarrow> pathTo h (Some m) qs e \<Longrightarrow> pathTo h s (ps @ qs) e"
  by (induction ps arbitrary: s) auto

lemma pathTo_prefix:
  "pathTo h s pre (Some e) \<Longrightarrow> pathTo h s ps None \<Longrightarrow> set pre \<union> {e} \<subseteq> set ps"
proof (induction pre arbitrary: s ps)
  case Nil
  then show ?case by (cases ps) auto
next
  case (Cons p pre)
  then show ?case by (cases ps) auto
qed

lemma pathTo_below:
  "pathTo h s ps e \<Longrightarrow> closedBelow m h \<Longrightarrow> (\<And>a. s = Some a \<Longrightarrow> a < m) \<Longrightarrow> \<forall>q\<in>set ps. q < m"
proof (induction ps arbitrary: s)
  case Nil
  then show ?case by simp
next
  case (Cons p ps)
  from Cons.prems have p: "s = Some p" "p < m" "pathTo h (getPrototypeOf h p) ps e" by auto
  have "\<forall>q\<in>set ps. q < m"
  proof (rule Cons.IH [OF p(3) Cons.prems(2)])
    fix a assume "getPrototypeOf h p = Some a"
    with p(2) Cons.prems(2) show "a < m" by (auto simp: closedBelow_def getPrototypeOf_def)
  qed
  with p show ?case by simp
qed

lemma hasPrototype_loop_path:
  "pathTo h s ps None \<Longrightarrow> hasPrototype_loop h s t = Some (t \<in> set ps)"
proof (induction ps arbitrary: s)
  case Nil
  then show ?case by (subst hasPrototype_loop.simps) simp
next
  case (Cons p ps)
  then show ?case by (subst hasPrototype_loop.simps) auto
qed

lemma hasPrototype_loop_False_aux:
  "hasPrototype_loop h s t = Some r \<Longrightarrow> r = False \<longrightarrow> (\<exists>ps. pathTo h s ps None \<and> t \<notin> set ps)"
proof (erule hasPrototype_loop.raw_induct [where P = "\<lambda>h s t r.
     r = False \<longrightarrow> (\<exists>ps. pathTo h s ps None \<and> t \<notin> set ps)", rotated])
  fix rec :: "heap \<Rightarrow> addr option \<Rightarrow> addr \<Rightarrow> bool option"
  fix h s t r
  assume IH: "\<And>h s t r. rec h s t = Some r \<Longrightarrow> r = False \<longrightarrow> (\<exists>ps. pathTo h s ps None \<and> t \<notin> set ps)"
  assume step: "(case s of None \<Rightarrow> Some False
      | Some c \<Rightarrow> if c = t then Some True else rec h (getPrototypeOf h c) t) = Some r"
  show "r = False \<longrightarrow> (\<exists>ps. pathTo h s ps None \<and> t \<notin> set ps)"
  proof
    assume r: "r = False"
    show "\<exists>ps. pathTo h s ps None \<and> t \<notin> set ps"
    proof (cases s)
      case None
      then have "pathTo h s [] None" by simp
      then show ?thesis by fastforce
    next
      case (Some c)
      with step r have ne: "c \<noteq> t" and "rec h (getPrototypeOf h c) t = Some False"
        by (auto split: if_splits)
      with IH obtain ps where "pathTo h (getPrototypeOf h c) ps None" "t \<notin> set ps" by blast
      with Some ne have "pathTo h s (c # ps) None \<and> t \<notin> set (c # ps)" by simp
      then show ?thesis by blast
    qed
  qed
qed

lemma hasPrototype_loop_False:
  "hasPrototype_loop h s t = Some False \<Longrightarrow> \<exists>ps. pathTo h s ps None \<and> t \<notin> set ps"
  using hasPrototype_loop_False_aux by blast

subsection \<open>Towers of wrappers\<close>

lemma consults_refl [simp]: "consults n v v"
proof (cases v)
  case (VFn f)
  then show ?thesis by (cases f) simp_all
qed simp_all

lemma consults_trans: "consults n v'' v' \<Longrightarrow> consults n v' v \<Longrightarrow> consults n v'' v"
  by (induction n v'' v' rule: consults.induct) auto

lemma consults_wrap: "n \<le> clone \<Longrightarrow> consults n (VFn (HasInstanceWrapper v clone)) v"
  by simp

lemma consults_benign: "consults n v' v \<Longrightarrow> benign v \<Longrightarrow> benign v'"
  by (induction n v' v rule: consults.induct) auto

lemma consults_recognises: "consults n v' v \<Longrightarrow> recognises v c \<Longrightarrow> recognises v' c"
  by (induction n v' v rule: consults.induct) auto

lemma recognises_VFn: "recognises v c \<Longrightarrow> \<exists>orig clone. v = VFn (HasInstanceWrapper orig clone)"
  by (cases "(v, c)" rule: recognises.cases) auto

lemma callHasInstance_total:
  "benign (VFn f) \<Longrightarrow> pathTo h (getPrototypeOf h x) ps None
     \<Longrightarrow> \<exists>b. callHasInstance h f VUndefined x = ok b"
proof (induction h f "VUndefined" x rule: callHasInstance.induct)
  case (1 h x)
  then show ?case by (auto simp: ordinaryHasInstance_def)
next
  case (4 h originalInstanceOf clone x)
  then obtain b where "callHasInstance h originalInstanceOf VUndefined x = ok b" by auto
  with 4 show ?case
    by (cases b) (simp_all add: hasPrototype_def hasPrototype_loop_path)
qed (simp_all add: hasPrototype_def hasPrototype_loop_path)

lemma callHasInstance_recognised:
  "benign (VFn f) \<Longrightarrow> recognises (VFn f) c \<Longrightarrow> pathTo h (getPrototypeOf h x) ps None
     \<Longrightarrow> c \<in> set ps \<Longrightarrow> callHasInstance h f this x = ok True"
proof (induction h f this x rule: callHasInstance.induct)
  case (4 h originalInstanceOf clone thisArg x)
  from callHasInstance_total [of originalInstanceOf h x ps] 4
  obtain b where b: "callHasInstance h originalInstanceOf VUndefined x = ok b" by auto
  show ?case
  proof (cases b)
    case True
    with b show ?thesis by simp
  next
    case False
    have "clone = c"
    proof (rule ccontr)
      assume "clone \<noteq> c"
      with 4 have "callHasInstance h originalInstanceOf VUndefined x = ok True" by simp
      with b False show False by simp
    qed
    with b False 4 show ?thesis by (simp add: hasPrototype_def hasPrototype_loop_path)
  qed
qed (simp_all add: hasPrototype_def hasPrototype_loop_path)

subsection \<open>Objects that a call leaves alone\<close>

lemma unaltered_refl [simp]: "unaltered ob ob"
  by (simp add: unaltered_def)

lemma unaltered_trans: "unaltered a b \<Longrightarrow> unaltered b c \<Longrightarrow> unaltered a c"
  by (simp add: unaltered_def)

lemma unaltered_storeHasInstance [simp]:
  "unaltered (cells h b) (cells (storeProp h a SymHasInstance p) b)"
  by (simp add: unaltered_def storeProp_def update_conv')

lemma advance_refl [simp]: "advance n h h"
  by (simp add: advance_def)

lemma advance_trans: "advance n h h1 \<Longrightarrow> advance n h1 h2 \<Longrightarrow> advance n h h2"
  unfolding advance_def
  by (meson consults_trans le_trans unaltered_trans)

lemma closedBelow_advance: "advance n h h' \<Longrightarrow> closedBelow n h \<Longrightarrow> closedBelow n h'"
  by (simp add: advance_def closedBelow_def unaltered_def)

lemma advance_same:
  assumes "fresh h \<le> fresh h'" and "closedBelow n h" and "\<forall>b<n. cells h' b = cells h b"
  shows "advance n h h'"
proof -
  have "getMember h' a SymHasInstance = Some v"
    if "a < n" and "getMember h a SymHasInstance = Some v" for a v
  proof -
    from that(2) obtain r where r: "findProperty h a SymHasInstance = Some r"
      and v: "v = (case r of None \<Rightarrow> VUndefined | Some p \<Rightarrow> pval p)"
      by (auto simp: getMember_def)
    from r that(1) assms(2,3) have "findProperty h' a SymHasInstance = Some r"
      by (rule findProperty_frame)
    with v show ?thesis by (simp add: getMember_def)
  qed
  with assms show ?thesis
    by (auto simp: advance_def)
qed

lemma findProperty_storeHasInstance_aux:
  "findProperty h a k = Some r \<Longrightarrow> k = SymHasInstance \<longrightarrow>
     findProperty h a SymHasInstance = Some r \<and>
     (\<exists>r'. findProperty (storeProp h c SymHasInstance w) a SymHasInstance = Some r'
        \<and> (r' = r \<or> (r' = Some w \<and> findProperty h c SymHasInstance = Some r)))"
proof (erule findProperty.raw_induct [where P = "\<lambda>h a k r. k = SymHasInstance \<longrightarrow>
     findProperty h a SymHasInstance = Some r \<and>
     (\<exists>r'. findProperty (storeProp h c SymHasInstance w) a SymHasInstance = Some r'
        \<and> (r' = r \<or> (r' = Some w \<and> findProperty h c SymHasInstance = Some r)))", rotated])
  fix rec h a k r
  assume IH: "\<And>h a k r. rec h a k = Some r \<Longrightarrow> k = SymHasInstance \<longrightarrow>
     findProperty h a SymHasInstance = Some r \<and>
     (\<exists>r'. findProperty (storeProp h c SymHasInstance w) a SymHasInstance = Some r'
        \<and> (r' = r \<or> (r' = Some w \<and> findProperty h c SymHasInstance = Some r)))"
  assume step: "(case getOwnProperty h a k of
        None \<Rightarrow> (case getPrototypeOf h a of None \<Rightarrow> Some None | Some b \<Rightarrow> rec h b k)
      | Some p \<Rightarrow> Some (Some p)) = Some r"
  let ?h' = "storeProp h c SymHasInstance w"
  show "k = SymHasInstance \<longrightarrow>
     findProperty h a SymHasInstance = Some r \<and>
     (\<exists>r'. findProperty ?h' a SymHasInstance = Some r'
        \<and> (r' = r \<or> (r' = Some w \<and> findProperty h c SymHasInstance = Some r)))"
  proof
    assume k: "k = SymHasInstance"
    have here: "findProperty h a SymHasInstance = Some r"
    proof (cases "getOwnProperty h a SymHasInstance")
      case (Some m)
      then have "findProperty h a SymHasInstance = Some (Some m)" by (rule findProperty_own)
      with Some step k show ?thesis by simp
    next
      case None
      show ?thesis
      proof (cases "getPrototypeOf h a")
        case None
        with step k \<open>getOwnProperty h a SymHasInstance = None\<close> show ?thesis
          by (subst findProperty.simps) simp
      next
        case (Some b)
        with step k \<open>getOwnProperty h a SymHasInstance = None\<close> have "rec h b k = Some r" by simp
        with IH k have "findProperty h b SymHasInstance = Some r" by blast
        with Some \<open>getOwnProperty h a SymHasInstance = None\<close> show ?thesis
          by (subst findProperty.simps) simp
      qed
    qed
    have there: "\<exists>r'. findProperty ?h' a SymHasInstance = Some r'
        \<and> (r' = r \<or> (r' = Some w \<and> findProperty h c SymHasInstance = Some r))"
    proof (cases "a = c")
      case True
      have "findProperty ?h' a SymHasInstance = Some (Some w)"
        using True by (intro findProperty_own) simp
      with here True show ?thesis by blast
    next
      case False
      show ?thesis
      proof (cases "getOwnProperty h a SymHasInstance")
        case (Some m)
        with False have "getOwnProperty ?h' a SymHasInstance = Some m" by simp
        then have "findProperty ?h' a SymHasInstance = Some (Some m)" by (rule findProperty_own)
        with Some step k show ?thesis by simp
      next
        case None
        with False have own': "getOwnProperty ?h' a SymHasInstance = None" by simp
        show ?thesis
        proof (cases "getPrototypeOf h a")
          case None
          with own' step k \<open>getOwnProperty h a SymHasInstance = None\<close> show ?thesis
            by (subst findProperty.simps) simp
        next
          case (Some b)
          with step k \<open>getOwnProperty h a SymHasInstance = None\<close> have "rec h b k = Some r" by simp
          with IH k obtain r' where "findProperty ?h' b SymHasInstance = Some r'"
            and "r' = r \<or> (r' = Some w \<and> findProperty h c SymHasInstance = Some r)"
            by blast
          with own' Some show ?thesis
            by (subst findProperty.simps) simp
        qed
      qed
    qed
    from here there show "findProperty h a SymHasInstance = Some r \<and>
     (\<exists>r'. findProperty ?h' a SymHasInstance = Some r'
        \<and> (r' = r \<or> (r' = Some w \<and> findProperty h c SymHasInstance = Some r)))" ..
  qed
qed

lemma advance_storeHasInstance:
  assumes "getMember h c SymHasInstance = Some orig" and "n \<le> clone"
  shows "advance n h (storeProp h c SymHasInstance
           (dataProp (VFn (HasInstanceWrapper orig clone)) True False True))"
proof -
  let ?w = "dataProp (VFn (HasInstanceWrapper orig clone)) True False True"
  let ?h' = "storeProp h c SymHasInstance ?w"
  have "\<exists>v'. getMember ?h' a SymHasInstance = Some v' \<and> consults n v' v"
    if "getMember h a SymHasInstance = Some v" for a v
  proof -
    from that obtain r where r: "findProperty h a SymHasInstance = Some r"
      and v: "v = (case r of None \<Rightarrow> VUndefined | Some p \<Rightarrow> pval p)"
      by (auto simp: getMember_def)
    from findProperty_storeHasInstance_aux [OF r, of c ?w]
    obtain r' where r': "findProperty ?h' a SymHasInstance = Some r'"
      and alt: "r' = r \<or> (r' = Some ?w \<and> findProperty h c SymHasInstance = Some r)"
      by blast
    from alt show ?thesis
    proof
      assume "r' = r"
      with r' v show ?thesis by (simp add: getMember_def)
    next
      assume hit: "r' = Some ?w \<and> findProperty h c SymHasInstance = Some r"
      with assms(1) v have "orig = v" by (simp add: getMember_def)
      with hit r' assms(2) show ?thesis by (simp add: getMember_def dataProp_def)
    qed
  qed
  then show ?thesis
    by (simp add: advance_def)
qed

lemma advance_getMember:
  "advance n h h' \<Longrightarrow> a < n \<Longrightarrow> getMember h a SymHasInstance = Some v
     \<Longrightarrow> \<exists>v'. getMember h' a SymHasInstance = Some v' \<and> consults n v' v"
  by (simp add: advance_def)

lemma advance_recognises:
  assumes "advance n h h'" and "a < n" and "getMember h a SymHasInstance = Some v" and "recognises v c"
  shows "\<exists>v'. getMember h' a SymHasInstance = Some v' \<and> recognises v' c"
  using advance_getMember [OF assms(1-3)] assms(4) consults_recognises by blast

lemma advance_own:
  "advance n h h' \<Longrightarrow> a < n \<Longrightarrow> k \<noteq> SymHasInstance \<Longrightarrow> getOwnProperty h' a k = getOwnProperty h a k"
  by (simp add: advance_def unaltered_def getOwnProperty_def)

lemma classBelow_advance: "advance n h h' \<Longrightarrow> classBelow n h S \<Longrightarrow> classBelow n h' S"
  unfolding classBelow_def by (auto simp: advance_own)

lemma classBelow_prototype:
  assumes "classBelow n h S"
  obtains p where "p < n" "getMember h S (Name ''prototype'') = Some (VRef p)"
  using assms unfolding classBelow_def by (auto simp: getMember_own)

lemma grows_refl [simp]: "grows n X h h"
  by (simp add: grows_def)

lemma grows_advance: "grows n X h h' \<Longrightarrow> advance n h h'"
  by (simp add: grows_def)

lemma grows_fresh: "grows n X h h' \<Longrightarrow> fresh h \<le> fresh h'"
  by (simp add: grows_def advance_def)

lemma grows_proto: "grows n X h h' \<Longrightarrow> a < fresh h \<Longrightarrow> a \<notin> X \<Longrightarrow> proto (cells h' a) = proto (cells h a)"
  by (simp add: grows_def)

lemma grows_identical:
  "grows n X h h' \<Longrightarrow> a < n \<Longrightarrow> \<not> constructorTarget h a \<Longrightarrow> cells h' a = cells h a"
  by (simp add: grows_def)

lemma grows_trans:
  assumes "grows n X h h1" and "grows n Y h1 h2"
  shows "grows n (X \<union> Y) h h2"
proof -
  from assms have f: "fresh h \<le> fresh h1" by (simp add: grows_fresh)
  have "advance n h h2"
    using assms by (auto simp: grows_def intro: advance_trans)
  moreover have "proto (cells h2 a) = proto (cells h a)" if "a < fresh h" "a \<notin> X \<union> Y" for a
    using that assms f by (auto simp: grows_def)
  moreover have "closedBelow (fresh h) h \<longrightarrow> closedBelow (fresh h2) h2"
    using assms by (simp add: grows_def)
  moreover have "constructorTarget h2 c \<longrightarrow> constructorTarget h c" for c
    using assms by (simp add: grows_def)
  moreover have "cells h2 a = cells h a" if "a < n" "\<not> constructorTarget h a" for a
  proof -
    from that assms(1) have "cells h1 a = cells h a" by (simp add: grows_def)
    moreover from that assms(1) have "\<not> constructorTarget h1 a" by (auto simp: grows_def)
    ultimately show ?thesis using that assms(2) by (simp add: grows_def)
  qed
  ultimately show ?thesis by (simp add: grows_def)
qed

lemma grows_weaken:
  "grows n X h h' \<Longrightarrow> (\<And>a. a < fresh h \<Longrightarrow> a \<in> X \<Longrightarrow> a \<in> Y) \<Longrightarrow> grows n Y h h'"
  unfolding grows_def by blast

lemma setPrototypeOf_grows:
  assumes ok: "setPrototypeOf h a p = ok h'" and n: "n \<le> a" and b: "\<And>b. p = Some b \<Longrightarrow> b < fresh h"
    and cl: "closedBelow n h"
  shows "grows n {a} h h'"
proof -
  note f = setPrototypeOf_okD [OF ok]
  have "advance n h h'"
  proof (rule advance_same [OF _ cl])
    show "fresh h \<le> fresh h'" by (simp add: f(2))
    show "\<forall>c<n. cells h' c = cells h c" using n f(3) by auto
  qed
  moreover have "proto (cells h' c) = proto (cells h c)" if "c \<notin> {a}" for c
    using that f(3) by simp
  moreover have "closedBelow (fresh h') h'" if c: "closedBelow (fresh h) h"
    unfolding closedBelow_def
  proof (intro allI impI)
    fix c d assume "c < fresh h'" and d: "proto (cells h' c) = Some d"
    then have c': "c < fresh h" by (simp add: f(2))
    show "d < fresh h'"
    proof (cases "c = a")
      case True
      with d f(1) b show ?thesis by (simp add: getPrototypeOf_def f(2))
    next
      case False
      with d f(3) have "proto (cells h c) = Some d" by simp
      with c c' show ?thesis by (auto simp: closedBelow_def f(2))
    qed
  qed
  moreover have "constructorTarget h' c \<longrightarrow> constructorTarget h c" for c
  proof
    assume "constructorTarget h' c"
    then obtain q m where q: "getOwnProperty h' q (Name ''constructor'') = Some m" "pval m = VRef c"
      by (auto simp: constructorTarget_def)
    have "props (cells h' q) = props (cells h q)" using f(3,4) by (cases "q = a") simp_all
    with q show "constructorTarget h c" by (auto simp: constructorTarget_def getOwnProperty_def)
  qed
  moreover have "cells h' c = cells h c" if "c < n" for c
    using that n f(3) by simp
  ultimately show ?thesis by (simp add: grows_def)
qed

subsection \<open>\<open>clonePrototype\<close>\<close>

lemma clonePrototype_okE:
  assumes "clonePrototype h p = ok (clone, h')"
  obtains m c orig h2 where
    "clone = fresh h"
    "h2 = storeProp (h\<lparr>cells := (cells h)(fresh h := \<lparr>proto = None, props = props (cells h p),
                    extensible = True, construct = None\<rparr>), fresh := Suc (fresh h)\<rparr>)
            (fresh h) (Name ''constructor'') m"
    "getMember h2 p (Name ''constructor'') = Some (VRef c)"
    "getMember h2 c SymHasInstance = Some orig"
    "h' = storeProp h2 c SymHasInstance (dataProp (VFn (HasInstanceWrapper orig (fresh h))) True False True)"
    "getMember (h\<lparr>cells := (cells h)(fresh h := \<lparr>proto = None, props = props (cells h p),
                    extensible = True, construct = None\<rparr>), fresh := Suc (fresh h)\<rparr>)
        p (Name ''constructor'') = Some (pval m)"
proof -
  let ?h1 = "h\<lparr>cells := (cells h)(fresh h := \<lparr>proto = None, props = props (cells h p),
                    extensible = True, construct = None\<rparr>), fresh := Suc (fresh h)\<rparr>"
  from assms obtain ctor h2 ctor' where
      g1: "getMember ?h1 p (Name ''constructor'') = Some ctor"
      and s: "setMember ?h1 (fresh h) (Name ''constructor'') ctor = ok h2"
      and g: "getMember h2 p (Name ''constructor'') = Some ctor'"
      and rest: "(case ctor' of
               VRef c \<Rightarrow>
                 bindR (liftD (getMember h2 c SymHasInstance)) (\<lambda>originalInstanceOf.
                 bindR (Some (defineProperty h2 c SymHasInstance
                          (dataProp (VFn (HasInstanceWrapper originalInstanceOf (fresh h)))
                             True False True))) (\<lambda>h3.
                 ok (fresh h, h3)))
             | _ \<Rightarrow> throw TypeError) = ok (clone, h')"
    by (auto simp: clonePrototype_def alloc_def elim!: bindR_okE)
  from rest obtain c where c: "ctor' = VRef c"
    by (cases ctor') auto
  with rest obtain orig h3 where o: "getMember h2 c SymHasInstance = Some orig"
    and d: "defineProperty h2 c SymHasInstance
              (dataProp (VFn (HasInstanceWrapper orig (fresh h))) True False True) = Inr h3"
    and res: "clone = fresh h" "h' = h3"
    by (auto elim!: bindR_okE)
  from s obtain m where "h2 = storeProp ?h1 (fresh h) (Name ''constructor'') m" "pval m = ctor"
    using setMember_okD(1) by blast
  moreover from d have "h3 = storeProp h2 c SymHasInstance
              (dataProp (VFn (HasInstanceWrapper orig (fresh h))) True False True)"
    by (rule defineProperty_InrD)
  ultimately show ?thesis
    using that res g g1 c o by blast
qed

lemma clonePrototype_facts:
  assumes ok: "clonePrototype h p = ok (clone, h')"
  shows clonePrototype_fresh: "clone = fresh h" "fresh h' = Suc (fresh h)"
    and clonePrototype_protos: "\<And>a. a \<noteq> fresh h \<Longrightarrow> proto (cells h' a) = proto (cells h a)"
    and clonePrototype_clone: "proto (cells h' clone) = None"
    and clonePrototype_unaltered: "\<And>a. a \<noteq> fresh h \<Longrightarrow> unaltered (cells h a) (cells h' a)"
proof -
  from ok obtain m c orig h2 where
    c: "clone = fresh h"
    and h2: "h2 = storeProp (h\<lparr>cells := (cells h)(fresh h := \<lparr>proto = None, props = props (cells h p),
                    extensible = True, construct = None\<rparr>), fresh := Suc (fresh h)\<rparr>)
            (fresh h) (Name ''constructor'') m"
    and h': "h' = storeProp h2 c SymHasInstance (dataProp (VFn (HasInstanceWrapper orig (fresh h))) True False True)"
    by (rule clonePrototype_okE)
  show "clone = fresh h" by (rule c)
  show "fresh h' = Suc (fresh h)" by (simp add: h' h2)
  show "proto (cells h' a) = proto (cells h a)" if "a \<noteq> fresh h" for a
    using that by (simp add: h' h2 storeProp_def)
  show "proto (cells h' clone) = None"
    by (simp add: h' h2 c storeProp_def)
  show "unaltered (cells h a) (cells h' a)" if "a \<noteq> fresh h" for a
  proof -
    from that have "cells h2 a = cells h a" by (simp add: h2 storeProp_def)
    moreover have "unaltered (cells h2 a) (cells h' a)" unfolding h' by simp
    ultimately show ?thesis by simp
  qed
qed

lemma clonePrototype_advance:
  assumes ok: "clonePrototype h p = ok (clone, h')" and n: "n \<le> fresh h" and cl: "closedBelow n h"
  shows "advance n h h'"
proof -
  from ok obtain m c orig h2 where
    h2: "h2 = storeProp (h\<lparr>cells := (cells h)(fresh h := \<lparr>proto = None, props = props (cells h p),
                    extensible = True, construct = None\<rparr>), fresh := Suc (fresh h)\<rparr>)
            (fresh h) (Name ''constructor'') m"
    and o: "getMember h2 c SymHasInstance = Some orig"
    and h': "h' = storeProp h2 c SymHasInstance (dataProp (VFn (HasInstanceWrapper orig (fresh h))) True False True)"
    by (rule clonePrototype_okE)
  have "advance n h h2"
  proof (rule advance_same [OF _ cl])
    show "fresh h \<le> fresh h2" by (simp add: h2)
    show "\<forall>b<n. cells h2 b = cells h b" using n by (simp add: h2 storeProp_def)
  qed
  moreover have "advance n h2 h'"
    unfolding h' using o n by (rule advance_storeHasInstance)
  ultimately show ?thesis by (rule advance_trans)
qed

text \<open>The constructor of the cloned table recognises the clone afterwards.\<close>

lemma clonePrototype_recognises:
  assumes ok: "clonePrototype h p = ok (clone, h')"
    and p: "p \<noteq> fresh h" and own: "getOwnProperty h p (Name ''constructor'') = Some m" and S: "pval m = VRef S"
  shows "\<exists>v. getMember h' S SymHasInstance = Some v \<and> recognises v clone"
proof -
  from ok obtain m' c orig h2 where
    c: "clone = fresh h"
    and h2: "h2 = storeProp (h\<lparr>cells := (cells h)(fresh h := \<lparr>proto = None, props = props (cells h p),
                    extensible = True, construct = None\<rparr>), fresh := Suc (fresh h)\<rparr>)
            (fresh h) (Name ''constructor'') m'"
    and g: "getMember h2 p (Name ''constructor'') = Some (VRef c)"
    and h': "h' = storeProp h2 c SymHasInstance (dataProp (VFn (HasInstanceWrapper orig (fresh h))) True False True)"
    by (rule clonePrototype_okE)
  from p own have "getOwnProperty h2 p (Name ''constructor'') = Some m"
    by (simp add: h2 getOwnProperty_def storeProp_def)
  then have "findProperty h2 p (Name ''constructor'') = Some (Some m)" by (rule findProperty_own)
  with g S have "c = S" by (simp add: getMember_def)
  have "getOwnProperty h' S SymHasInstance
          = Some (dataProp (VFn (HasInstanceWrapper orig (fresh h))) True False True)"
    by (simp add: h' \<open>c = S\<close>)
  then have "findProperty h' S SymHasInstance
          = Some (Some (dataProp (VFn (HasInstanceWrapper orig (fresh h))) True False True))"
    by (rule findProperty_own)
  then show ?thesis
    by (simp add: getMember_def dataProp_def c)
qed

text \<open>
  \<open>clonePrototype\<close> makes no object the value of a \<open>constructor\<close> member that was not one
  before, and it writes only to the duplicate and to such a value.
\<close>

lemma clonePrototype_targets:
  assumes ok: "clonePrototype h p = ok (clone, h')"
  shows "constructorTarget h' c \<Longrightarrow> constructorTarget h c"
    and "\<not> constructorTarget h a \<Longrightarrow> a \<noteq> fresh h \<Longrightarrow> cells h' a = cells h a"
proof -
  let ?K = "Name ''constructor''"
  let ?h1 = "h\<lparr>cells := (cells h)(fresh h := \<lparr>proto = None, props = props (cells h p),
                    extensible = True, construct = None\<rparr>), fresh := Suc (fresh h)\<rparr>"
  from ok obtain m c0 orig h2 where
    h2: "h2 = storeProp ?h1 (fresh h) ?K m"
    and g2: "getMember h2 p ?K = Some (VRef c0)"
    and h': "h' = storeProp h2 c0 SymHasInstance (dataProp (VFn (HasInstanceWrapper orig (fresh h))) True False True)"
    and g1: "getMember ?h1 p ?K = Some (pval m)"
    by (rule clonePrototype_okE)
  have own1: "getOwnProperty ?h1 q ?K = getOwnProperty h (if q = fresh h then p else q) ?K" for q
    by (simp add: getOwnProperty_def)
  have t1: "constructorTarget h d" if "constructorTarget ?h1 d" for d
    using that unfolding constructorTarget_def own1 by blast
  have t2: "constructorTarget h d" if d: "constructorTarget h2 d" for d
  proof -
    from d obtain q m' where q: "getOwnProperty h2 q ?K = Some m'" "pval m' = VRef d"
      by (auto simp: constructorTarget_def)
    show ?thesis
    proof (cases "q = fresh h")
      case True
      with q have "pval m = VRef d" by (simp add: h2)
      with g1 have "constructorTarget ?h1 d" by (simp add: getMember_constructorTarget)
      then show ?thesis by (rule t1)
    next
      case False
      with q have "getOwnProperty ?h1 q ?K = Some m'" by (simp add: h2)
      with q(2) have "constructorTarget ?h1 d" by (auto simp: constructorTarget_def)
      then show ?thesis by (rule t1)
    qed
  qed
  show "constructorTarget h c" if "constructorTarget h' c"
  proof -
    from that have "constructorTarget h2 c" by (simp add: constructorTarget_def h')
    then show ?thesis by (rule t2)
  qed
  show "cells h' a = cells h a" if a: "\<not> constructorTarget h a" "a \<noteq> fresh h"
  proof -
    from g2 have "constructorTarget h2 c0" by (rule getMember_constructorTarget)
    then have "constructorTarget h c0" by (rule t2)
    with a have "a \<noteq> c0" by auto
    then have "cells h' a = cells h2 a" by (simp add: h' cells_storeProp_other)
    also from a have "\<dots> = cells h a" by (simp add: h2 cells_storeProp_other)
    finally show ?thesis .
  qed
qed

lemma clonePrototype_grows:
  assumes ok: "clonePrototype h p = ok (clone, h')" and n: "n \<le> fresh h" and cl: "closedBelow n h"
  shows "grows n {} h h'"
proof -
  note f = clonePrototype_facts [OF ok]
  have "closedBelow (fresh h') h'" if c: "closedBelow (fresh h) h"
    unfolding closedBelow_def
  proof (intro allI impI)
    fix a b assume a: "a < fresh h'" and b: "proto (cells h' a) = Some b"
    show "b < fresh h'"
    proof (cases "a = fresh h")
      case True
      with f(1,4) b show ?thesis by simp
    next
      case False
      with f(3) b have "proto (cells h a) = Some b" by simp
      moreover from False a f(2) have "a < fresh h" by simp
      ultimately have "b < fresh h" using c by (auto simp: closedBelow_def)
      with f(2) show ?thesis by simp
    qed
  qed
  moreover have "cells h' a = cells h a" if "a < n" "\<not> constructorTarget h a" for a
    using that n by (simp add: clonePrototype_targets(2) [OF ok])
  ultimately show ?thesis
    using clonePrototype_advance [OF ok n cl] f(3) clonePrototype_targets(1) [OF ok]
    by (simp add: grows_def)
qed

subsection \<open>\<open>clonePrototypeDeep\<close> and the loop of \<open>Mix\<close>\<close>

lemma clonePrototypeDeep_loop_aux:
  "clonePrototypeDeep_loop h l0 nxt = Some r \<Longrightarrow>
     (\<forall>l' h'. r = Inr (l', h') \<longrightarrow> l0 < fresh h \<longrightarrow> n \<le> l0 \<longrightarrow> closedBelow n h \<longrightarrow>
        grows n {l0} h h' \<and> l0 \<le> l' \<and> l' < fresh h'
        \<and> (\<exists>seg. pathTo h' (Some l0) seg (Some l') \<and> (\<forall>q\<in>set seg. q < l')))"
proof (erule clonePrototypeDeep_loop.raw_induct [where P = "\<lambda>h l0 nxt r.
     (\<forall>l' h'. r = Inr (l', h') \<longrightarrow> l0 < fresh h \<longrightarrow> n \<le> l0 \<longrightarrow> closedBelow n h \<longrightarrow>
        grows n {l0} h h' \<and> l0 \<le> l' \<and> l' < fresh h'
        \<and> (\<exists>seg. pathTo h' (Some l0) seg (Some l') \<and> (\<forall>q\<in>set seg. q < l')))", rotated])
  fix rec :: "heap \<Rightarrow> addr \<Rightarrow> addr option \<Rightarrow> (error + addr \<times> heap) option"
  fix h l0 nxt r
  assume IH: "\<And>h l0 nxt r. rec h l0 nxt = Some r \<Longrightarrow>
     (\<forall>l' h'. r = Inr (l', h') \<longrightarrow> l0 < fresh h \<longrightarrow> n \<le> l0 \<longrightarrow> closedBelow n h \<longrightarrow>
        grows n {l0} h h' \<and> l0 \<le> l' \<and> l' < fresh h'
        \<and> (\<exists>seg. pathTo h' (Some l0) seg (Some l') \<and> (\<forall>q\<in>set seg. q < l')))"
  assume step: "(case nxt of
        None \<Rightarrow> ok (l0, h)
      | Some n \<Rightarrow>
          if n = Object_prototype then ok (l0, h)
          else (case clonePrototype h n of
                  None \<Rightarrow> None
                | Some (Inl e) \<Rightarrow> throw e
                | Some (Inr (nextPrototypeClone, h1)) \<Rightarrow>
                    (case setPrototypeOf h1 l0 (Some nextPrototypeClone) of
                       None \<Rightarrow> None
                     | Some (Inl e) \<Rightarrow> throw e
                     | Some (Inr h2) \<Rightarrow> rec h2 nextPrototypeClone (getPrototypeOf h2 n)))) = Some r"
  show "\<forall>l' h'. r = Inr (l', h') \<longrightarrow> l0 < fresh h \<longrightarrow> n \<le> l0 \<longrightarrow> closedBelow n h \<longrightarrow>
        grows n {l0} h h' \<and> l0 \<le> l' \<and> l' < fresh h'
        \<and> (\<exists>seg. pathTo h' (Some l0) seg (Some l') \<and> (\<forall>q\<in>set seg. q < l'))"
  proof (intro allI impI)
    fix l' h'
    assume r: "r = Inr (l', h')" and l: "l0 < fresh h" and n: "n \<le> l0" and cl: "closedBelow n h"
    consider (stop) "l' = l0" "h' = h"
      | (go) nx nc h1 h2 where "clonePrototype h nx = ok (nc, h1)"
          "setPrototypeOf h1 l0 (Some nc) = ok h2" "rec h2 nc (getPrototypeOf h2 nx) = Some r"
      using step r by (auto split: option.splits if_splits sum.splits)
    then show "grows n {l0} h h' \<and> l0 \<le> l' \<and> l' < fresh h'
        \<and> (\<exists>seg. pathTo h' (Some l0) seg (Some l') \<and> (\<forall>q\<in>set seg. q < l'))"
    proof cases
      case stop
      have "pathTo h (Some l0) [] (Some l0)" by simp
      with stop l show ?thesis by (metis empty_iff grows_refl le_refl list.set(1))
    next
      case go
      note f = clonePrototype_facts [OF go(1)]
      note s = setPrototypeOf_okD [OF go(2)]
      from l n have n': "n \<le> fresh h" by simp
      have g1: "grows n {} h h1" using go(1) n' cl by (rule clonePrototype_grows)
      then have cl1: "closedBelow n h1" using cl closedBelow_advance grows_advance by blast
      have g2: "grows n {l0} h1 h2"
        using go(2) n _ cl1 by (rule setPrototypeOf_grows) (simp add: f)
      then have cl2: "closedBelow n h2" using cl1 closedBelow_advance grows_advance by blast
      have nc: "nc < fresh h2" "n \<le> nc" using f s n' by simp_all
      from IH [OF go(3)] r nc cl2
      obtain seg where g3: "grows n {nc} h2 h'" and le: "nc \<le> l'" and lt: "l' < fresh h'"
        and path: "pathTo h' (Some nc) seg (Some l')" and below: "\<forall>q\<in>set seg. q < l'"
        by blast
      have "grows n ({} \<union> {l0} \<union> {nc}) h h'"
        using g1 g2 g3 by (blast intro: grows_trans)
      then have G: "grows n {l0} h h'"
        by (rule grows_weaken) (use f in auto)
      have "l0 < fresh h2" using l f s by simp
      moreover have "l0 \<noteq> nc" using l f by simp
      ultimately have "proto (cells h' l0) = proto (cells h2 l0)"
        using g3 by (simp add: grows_proto)
      with s(1) have "getPrototypeOf h' l0 = Some nc" by (simp add: getPrototypeOf_def)
      with path have "pathTo h' (Some l0) (l0 # seg) (Some l')" by simp
      moreover have "\<forall>q\<in>set (l0 # seg). q < l'" using below l f le by auto
      moreover have "l0 \<le> l'" using l f le by simp
      ultimately show ?thesis using G lt by blast
    qed
  qed
qed

lemma clonePrototypeDeep_loop_ok:
  assumes "clonePrototypeDeep_loop h l0 nxt = ok (l', h')"
    and "l0 < fresh h" and "n \<le> l0" and "closedBelow n h"
  shows "grows n {l0} h h'" and "l0 \<le> l'" and "l' < fresh h'"
    and "\<exists>seg. pathTo h' (Some l0) seg (Some l') \<and> (\<forall>q\<in>set seg. q < l')"
  using clonePrototypeDeep_loop_aux [OF assms(1), of n] assms(2-) by blast+

lemma clonePrototypeDeep_ok:
  assumes ok: "clonePrototypeDeep h p = ok (clone, lst, h')" and n: "n \<le> fresh h"
    and cl: "closedBelow n h"
  shows "grows n {} h h'" and "clone = fresh h" and "clone \<le> lst" and "lst < fresh h'"
    and "\<exists>seg. pathTo h' (Some clone) seg (Some lst) \<and> (\<forall>q\<in>set seg. q < lst)"
    and "\<And>m S. p < n \<Longrightarrow> S < n \<Longrightarrow> getOwnProperty h p (Name ''constructor'') = Some m
            \<Longrightarrow> pval m = VRef S
            \<Longrightarrow> \<exists>v. getMember h' S SymHasInstance = Some v \<and> recognises v clone"
proof -
  from ok obtain h1 where c: "clonePrototype h p = ok (clone, h1)"
    and l: "clonePrototypeDeep_loop h1 clone (getPrototypeOf h1 p) = ok (lst, h')"
    by (auto simp: clonePrototypeDeep_def elim!: bindR_okE)
  note f = clonePrototype_facts [OF c]
  have g1: "grows n {} h h1" using c n cl by (rule clonePrototype_grows)
  then have cl1: "closedBelow n h1" using cl closedBelow_advance grows_advance by blast
  have pre: "clone < fresh h1" "n \<le> clone" using f n by simp_all
  note L = clonePrototypeDeep_loop_ok [OF l pre cl1]
  have "grows n ({} \<union> {clone}) h h'" using g1 L(1) by (rule grows_trans)
  then show G: "grows n {} h h'" by (rule grows_weaken) (use f in auto)
  show "clone = fresh h" by (rule f(1))
  show "clone \<le> lst" by (rule L(2))
  show "lst < fresh h'" by (rule L(3))
  show "\<exists>seg. pathTo h' (Some clone) seg (Some lst) \<and> (\<forall>q\<in>set seg. q < lst)" by (rule L(4))
  show "\<exists>v. getMember h' S SymHasInstance = Some v \<and> recognises v clone"
    if "p < n" "S < n" "getOwnProperty h p (Name ''constructor'') = Some m" "pval m = VRef S" for m S
  proof -
    from that n have "p \<noteq> fresh h" by simp
    from clonePrototype_recognises [OF c this that(3,4)]
    obtain v where "getMember h1 S SymHasInstance = Some v" "recognises v clone" by blast
    with grows_advance [OF L(1)] that(2) show ?thesis by (blast intro: advance_recognises)
  qed
qed

lemma linkPrototypes_ok:
  "linkPrototypes h (Some l) rest = ok (l', h') \<Longrightarrow> l < fresh h \<Longrightarrow> n \<le> l \<Longrightarrow> closedBelow n h \<Longrightarrow>
     \<exists>e seg. l' = Some e \<and> l \<le> e \<and> e < fresh h' \<and> grows n {l} h h'
        \<and> pathTo h' (Some l) seg (Some e) \<and> (\<forall>q\<in>set seg. q < e)
        \<and> (\<forall>S\<in>set rest. classBelow n h S \<longrightarrow>
              (\<exists>c\<in>set seg \<union> {e}. \<exists>v. getMember h' S SymHasInstance = Some v \<and> recognises v c))"
proof (induction rest arbitrary: h l)
  case Nil
  then have "l' = Some l" "h' = h" by simp_all
  moreover have "pathTo h (Some l) [] (Some l)" by simp
  ultimately show ?case using Nil.prems(2) by fastforce
next
  case (Cons S rest)
  from Cons.prems(1) obtain p clone x h1 h2 where
    gp: "getMember h S (Name ''prototype'') = Some (VRef p)"
    and dc: "clonePrototypeDeep h p = ok (clone, x, h1)"
    and sp: "setPrototypeOf h1 l (Some clone) = ok h2"
    and rec: "linkPrototypes h2 (getPrototypeOf h2 l) rest = ok (l', h')"
    by (auto simp: asObject_def elim!: bindR_okE split: val.splits)
  from Cons.prems have n: "n \<le> fresh h" by simp
  note D = clonePrototypeDeep_ok [OF dc n Cons.prems(4)]
  note s = setPrototypeOf_okD [OF sp]
  have cl1: "closedBelow n h1" using D(1) Cons.prems(4) closedBelow_advance grows_advance by blast
  have g2: "grows n {l} h1 h2"
    using sp Cons.prems(3) _ cl1 by (rule setPrototypeOf_grows) (use D in simp)
  then have cl2: "closedBelow n h2" using cl1 closedBelow_advance grows_advance by blast
  have f1: "fresh h \<le> fresh h1" using D(1) by (rule grows_fresh)
  have pre: "clone < fresh h2" "n \<le> clone" using D s n by simp_all
  from rec s(1) have rec': "linkPrototypes h2 (Some clone) rest = ok (l', h')" by simp
  from Cons.IH [OF rec' pre cl2]
  obtain e seg where e: "l' = Some e" "clone \<le> e" "e < fresh h'" and g3: "grows n {clone} h2 h'"
    and path: "pathTo h' (Some clone) seg (Some e)" and below: "\<forall>q\<in>set seg. q < e"
    and recs: "\<forall>T\<in>set rest. classBelow n h2 T \<longrightarrow>
              (\<exists>c\<in>set seg \<union> {e}. \<exists>v. getMember h' T SymHasInstance = Some v \<and> recognises v c)"
    by blast
  have a02: "advance n h h2" using D(1) g2 by (blast intro: advance_trans grows_advance)
  have "grows n ({} \<union> {l} \<union> {clone}) h h'"
    using D(1) g2 g3 by (blast intro: grows_trans)
  then have G: "grows n {l} h h'"
    by (rule grows_weaken) (use D(2) in auto)
  have "l < fresh h2" using Cons.prems(2) f1 s by simp
  moreover have "l \<noteq> clone" using Cons.prems(2) D(2) by simp
  ultimately have "proto (cells h' l) = proto (cells h2 l)"
    using g3 by (simp add: grows_proto)
  with s(1) have "getPrototypeOf h' l = Some clone" by (simp add: getPrototypeOf_def)
  with path have P: "pathTo h' (Some l) (l # seg) (Some e)" by simp
  have B: "\<forall>q\<in>set (l # seg). q < e" using below Cons.prems(2) D(2) e(2) by auto
  have R: "\<exists>c\<in>set (l # seg) \<union> {e}. \<exists>v. getMember h' T SymHasInstance = Some v \<and> recognises v c"
    if T: "T \<in> set (S # rest)" and cb: "classBelow n h T" for T
  proof (cases "T = S")
    case True
    from cb obtain p0 m0 mc where S: "S < n" and p0: "p0 < n"
      and o1: "getOwnProperty h S (Name ''prototype'') = Some m0" "pval m0 = VRef p0"
      and o2: "getOwnProperty h p0 (Name ''constructor'') = Some mc" "pval mc = VRef S"
      unfolding classBelow_def True by auto
    from o1 gp have "p = p0" by (simp add: getMember_own)
    with D(6) p0 S o2 obtain v where "getMember h1 S SymHasInstance = Some v" "recognises v clone"
      by blast
    moreover have "advance n h1 h'" using g2 g3 by (blast intro: advance_trans grows_advance)
    ultimately obtain v' where "getMember h' S SymHasInstance = Some v'" "recognises v' clone"
      using S by (blast dest: advance_recognises)
    moreover from pathTo_head [OF path] have "clone \<in> set (l # seg) \<union> {e}" by auto
    ultimately show ?thesis using True by blast
  next
    case False
    with T have "T \<in> set rest" by simp
    moreover from cb a02 have "classBelow n h2 T" by (blast intro: classBelow_advance)
    ultimately obtain c v where "c \<in> set seg \<union> {e}" "getMember h' T SymHasInstance = Some v"
      "recognises v c" using recs by blast
    then show ?thesis by auto
  qed
  have "l \<le> e" using Cons.prems(2) D(2) e(2) by simp
  with e G P B R show ?case by blast
qed

subsection \<open>Copying members\<close>

lemma enumerableIn_ownKeys: "k \<notin> set (ownKeys ms) \<Longrightarrow> enumerableIn ms k = None"
  by (auto simp: ownKeys_def enumerableIn_def map_of_eq_None_iff [symmetric] split: option.splits)




lemma objectAssign_keys_ok:
  "objectAssign_keys h t s ks = ok h' \<Longrightarrow> t \<noteq> s \<Longrightarrow>
     fresh h' = fresh h \<and> (\<forall>b. b \<noteq> t \<longrightarrow> cells h' b = cells h b)
     \<and> (\<forall>b. proto (cells h' b) = proto (cells h b) \<and> extensible (cells h' b) = extensible (cells h b)
             \<and> construct (cells h' b) = construct (cells h b))
     \<and> (\<forall>j m. getOwnProperty h t j = Some m \<and> \<not> writable m \<longrightarrow> getOwnProperty h' t j = Some m)
     \<and> (\<forall>j. map_option pval (getOwnProperty h' t j) =
              (if j \<in> set ks then (case enumerableIn (props (cells h s)) j of
                                     Some v \<Rightarrow> Some v
                                   | None \<Rightarrow> map_option pval (getOwnProperty h t j))
               else map_option pval (getOwnProperty h t j)))"
proof (induction ks arbitrary: h)
  case Nil
  then show ?case by simp
next
  case (Cons k ks)
  show ?case
  proof (cases "enumerableIn (props (cells h s)) k")
    case None
    then have skip: "objectAssign_keys h t s ks = ok h'"
      using Cons.prems(1)
      by (auto simp: enumerableIn_def getOwnProperty_def split: option.splits if_splits)
    from Cons.IH [OF skip Cons.prems(2)] None show ?thesis by auto
  next
    case (Some v)
    then obtain d where d: "getOwnProperty h s k = Some d" "enumerable d" "pval d = v"
      by (auto simp: enumerableIn_def getOwnProperty_def split: option.splits if_splits)
    then have "getMember h s k = Some v" by (simp add: getMember_own)
    with Cons.prems(1) d obtain h1 where sm: "setMember h t k v = ok h1"
      and rest: "objectAssign_keys h1 t s ks = ok h'"
      by (auto elim!: bindR_okE)
    note f = setMember_frame [OF sm]
    from f(2) Cons.prems(2) have same: "cells h1 s = cells h s" by simp
    note IH = Cons.IH [OF rest Cons.prems(2)]
    have "getOwnProperty h' t j = Some m" if "getOwnProperty h t j = Some m" "\<not> writable m" for j m
    proof -
      from that f(8) have "j \<noteq> k" by blast
      with that f(6) have "getOwnProperty h1 t j = Some m" by simp
      with IH that(2) show ?thesis by blast
    qed
    moreover have "map_option pval (getOwnProperty h' t j) =
              (if j \<in> set (k # ks) then (case enumerableIn (props (cells h s)) j of
                                     Some v \<Rightarrow> Some v
                                   | None \<Rightarrow> map_option pval (getOwnProperty h t j))
               else map_option pval (getOwnProperty h t j))" for j
    proof (cases "j = k")
      case True
      with IH f(7) Some same show ?thesis by (auto split: option.splits)
    next
      case False
      with IH f(6) same show ?thesis by (auto split: option.splits)
    qed
    ultimately show ?thesis using IH f by auto
  qed
qed

lemma objectAssign_ok:
  assumes "objectAssign h t s = ok h'" and "t \<noteq> s"
  shows "fresh h' = fresh h" and "\<And>b. b \<noteq> t \<Longrightarrow> cells h' b = cells h b"
    and "\<And>b. proto (cells h' b) = proto (cells h b)"
    and "\<And>b. extensible (cells h' b) = extensible (cells h b)"
    and "\<And>b. construct (cells h' b) = construct (cells h b)"
    and "\<And>j m. getOwnProperty h t j = Some m \<Longrightarrow> \<not> writable m \<Longrightarrow> getOwnProperty h' t j = Some m"
    and "\<And>j. map_option pval (getOwnProperty h' t j) =
              (case enumerableIn (props (cells h s)) j of
                 Some v \<Rightarrow> Some v
               | None \<Rightarrow> map_option pval (getOwnProperty h t j))"
proof -
  note A = objectAssign_keys_ok [OF assms(1) [unfolded objectAssign_def] assms(2)]
  show "fresh h' = fresh h" "\<And>b. b \<noteq> t \<Longrightarrow> cells h' b = cells h b"
    "\<And>b. proto (cells h' b) = proto (cells h b)"
    "\<And>b. extensible (cells h' b) = extensible (cells h b)"
    "\<And>b. construct (cells h' b) = construct (cells h b)"
    "\<And>j m. getOwnProperty h t j = Some m \<Longrightarrow> \<not> writable m \<Longrightarrow> getOwnProperty h' t j = Some m"
    using A by blast+
  show "map_option pval (getOwnProperty h' t j) =
              (case enumerableIn (props (cells h s)) j of
                 Some v \<Rightarrow> Some v
               | None \<Rightarrow> map_option pval (getOwnProperty h t j))" for j
    using A enumerableIn_ownKeys [of j "props (cells h s)"] by (auto split: option.splits)
qed

lemma assignStatics_ok:
  "assignStatics h t cs = ok h' \<Longrightarrow> t \<notin> set cs \<Longrightarrow>
     fresh h' = fresh h \<and> (\<forall>b. b \<noteq> t \<longrightarrow> cells h' b = cells h b)
     \<and> (\<forall>b. proto (cells h' b) = proto (cells h b) \<and> extensible (cells h' b) = extensible (cells h b)
             \<and> construct (cells h' b) = construct (cells h b))
     \<and> (\<forall>j m. getOwnProperty h t j = Some m \<and> \<not> writable m \<longrightarrow> getOwnProperty h' t j = Some m)
     \<and> (\<forall>j. map_option pval (getOwnProperty h' t j) =
              (case lastEnumerable (map (\<lambda>S. props (cells h S)) cs) j of
                 Some v \<Rightarrow> Some v
               | None \<Rightarrow> map_option pval (getOwnProperty h t j)))"
proof (induction cs arbitrary: h)
  case Nil
  then show ?case by simp
next
  case (Cons S cs)
  from Cons.prems obtain h1 where a: "objectAssign h t S = ok h1"
    and rest: "assignStatics h1 t cs = ok h'" and ne: "t \<noteq> S" "t \<notin> set cs"
    by (auto elim!: bindR_okE)
  note f = objectAssign_ok [OF a ne(1)]
  note IH = Cons.IH [OF rest ne(2)]
  have same: "map (\<lambda>S. props (cells h1 S)) cs = map (\<lambda>S. props (cells h S)) cs"
  proof (rule map_cong [OF refl])
    fix x assume "x \<in> set cs"
    with ne(2) have "x \<noteq> t" by auto
    with f(2) show "props (cells h1 x) = props (cells h x)" by simp
  qed
  have "map_option pval (getOwnProperty h' t j) =
              (case lastEnumerable (map (\<lambda>S. props (cells h S)) (S # cs)) j of
                 Some v \<Rightarrow> Some v
               | None \<Rightarrow> map_option pval (getOwnProperty h t j))" for j
    using IH f(7) [of j] same by (auto split: option.splits)
  moreover have "getOwnProperty h' t j = Some m" if "getOwnProperty h t j = Some m" "\<not> writable m" for j m
    using that f(6) IH by blast
  moreover have "cells h' b = cells h b" if "b \<noteq> t" for b
    using that f(2) IH by simp
  ultimately show ?case using IH f(1,3,4,5) by simp
qed

subsection \<open>Constructing instances\<close>

lemma runActions_ok:
  "runActions h this acts = ok h' \<Longrightarrow>
     fresh h' = fresh h \<and> (\<forall>b. b \<noteq> this \<longrightarrow> cells h' b = cells h b)
     \<and> proto (cells h' this) = proto (cells h this)"
proof (induction acts arbitrary: h)
  case Nil
  then show ?case by simp
next
  case (Cons a acts)
  show ?case
  proof (cases a)
    case (Assign k v)
    with Cons.prems obtain h1 where s: "setMember h this k v = ok h1"
      and r: "runActions h1 this acts = ok h'"
      by (auto elim!: bindR_okE)
    note f = setMember_frame [OF s]
    from Cons.IH [OF r] f(1) f(2) f(3) [of this] show ?thesis by simp
  next
    case (Define k d)
    with Cons.prems obtain h1 where s: "defineProperty h this k d = Inr h1"
      and r: "runActions h1 this acts = ok h'"
      by (auto elim!: bindR_okE)
    from s have h1: "h1 = storeProp h this k d" by (rule defineProperty_InrD)
    from Cons.IH [OF r] show ?thesis by (simp add: h1 cells_storeProp_other)
  qed
qed

lemma create_forEach_frame:
  assumes new: "\<And>h c xs t h1. new h c xs = ok (t, h1) \<Longrightarrow>
                  fresh h \<le> t \<and> t < fresh h1 \<and> (\<forall>a<fresh h. cells h1 a = cells h a)"
  shows "create_forEach new h this cs parameters index = ok h' \<Longrightarrow> this < fresh h \<Longrightarrow>
     fresh h \<le> fresh h' \<and> (\<forall>a<fresh h. a \<noteq> this \<longrightarrow> cells h' a = cells h a)
     \<and> proto (cells h' this) = proto (cells h this)"
proof (induction cs arbitrary: h index)
  case Nil
  then show ?case by simp
next
  case (Cons S cs)
  from Cons.prems(1) obtain xs tmp h1 h2 where
    n: "new h S xs = ok (tmp, h1)" and a: "objectAssign h1 this tmp = ok h2"
    and r: "create_forEach new h2 this cs parameters (index + 1) = ok h'"
    by (auto elim!: bindR_okE split: sum.splits)
  note N = new [OF n]
  from N Cons.prems(2) have ne: "this \<noteq> tmp" by auto
  note A = objectAssign_ok [OF a ne]
  from N Cons.prems(2) A(1) have t2: "this < fresh h2" by simp
  note IH = Cons.IH [OF r t2]
  have "cells h' b = cells h b" if "b < fresh h" "b \<noteq> this" for b
  proof -
    from that N A(1) have "b < fresh h2" by simp
    with IH that have "cells h' b = cells h2 b" by simp
    also from that A(2) have "\<dots> = cells h1 b" by simp
    also from that N have "\<dots> = cells h b" by simp
    finally show ?thesis .
  qed
  moreover have "proto (cells h' this) = proto (cells h this)"
    using IH A(3) [of this] N Cons.prems(2) by simp
  moreover have "fresh h \<le> fresh h'" using IH N A(1) by simp
  ultimately show ?case by simp
qed

lemma Construct_frame:
  "Construct n h F newTarget args = ok (x, h') \<Longrightarrow>
     fresh h \<le> x \<and> x < fresh h' \<and> (\<forall>a<fresh h. cells h' a = cells h a)
     \<and> (\<exists>pv. getMember h newTarget (Name ''prototype'') = Some pv
            \<and> proto (cells h' x) = Some (case pv of VRef p \<Rightarrow> p | _ \<Rightarrow> Object_prototype))"
proof (induction n arbitrary: h F newTarget args x h')
  case 0
  then show ?case by simp
next
  case (Suc n)
  let ?goal = "\<lambda>pv. proto (cells h' x) = Some (case pv of VRef p \<Rightarrow> p | _ \<Rightarrow> Object_prototype)"
  from Suc.prems obtain c where c: "construct (cells h F) = Some c"
    by (cases "construct (cells h F)") auto
  show ?case
  proof (cases c)
    case (Base body)
    with Suc.prems c obtain pv acts where pv: "getMember h newTarget (Name ''prototype'') = Some pv"
      and r: "runActions (h\<lparr>cells := (cells h)(fresh h :=
                 \<lparr>proto = Some (case pv of VRef p \<Rightarrow> p | _ \<Rightarrow> Object_prototype),
                  props = [], extensible = True, construct = None\<rparr>), fresh := Suc (fresh h)\<rparr>)
               (fresh h) acts = ok h'"
      and x: "x = fresh h"
      by (auto simp: alloc_def elim!: bindR_okE)
    from runActions_ok [OF r] pv x show ?thesis by auto
  next
    case (Derived superArgs body)
    with Suc.prems c obtain parent h1 acts where
      s: "Construct n h parent newTarget (superArgs args) = ok (x, h1)"
      and r: "runActions h1 x acts = ok h'"
      by (auto elim!: bindR_okE split: option.splits)
    note IH = Suc.IH [OF s]
    note R = runActions_ok [OF r]
    from IH obtain pv where pv: "getMember h newTarget (Name ''prototype'') = Some pv"
      "proto (cells h1 x) = Some (case pv of VRef p \<Rightarrow> p | _ \<Rightarrow> Object_prototype)" by blast
    have "cells h' a = cells h a" if "a < fresh h" for a
    proof -
      from that IH have "a \<noteq> x" by auto
      with R have "cells h' a = cells h1 a" by simp
      with that IH show ?thesis by simp
    qed
    with IH R pv show ?thesis by auto
  next
    case (Create cs)
    with Suc.prems c obtain superArgs parent h1 h2 where
      s: "Construct n h parent newTarget superArgs = ok (x, h1)"
      and f: "create_forEach (\<lambda>h c xs. Construct n h c c xs) h1 x (tl cs) args 0 = ok h'"
      by (auto elim!: bindR_okE split: option.splits)
    note IH = Suc.IH [OF s]
    have "fresh h1 \<le> fresh h' \<and> (\<forall>a<fresh h1. a \<noteq> x \<longrightarrow> cells h' a = cells h1 a)
       \<and> proto (cells h' x) = proto (cells h1 x)"
    proof (rule create_forEach_frame [OF _ f])
      show "x < fresh h1" using IH by simp
    next
      fix h c xs t h1
      assume "Construct n h c c xs = ok (t, h1)"
      from Suc.IH [OF this]
      show "fresh h \<le> t \<and> t < fresh h1 \<and> (\<forall>a<fresh h. cells h1 a = cells h a)" by blast
    qed
    note F = this
    from IH obtain pv where pv: "getMember h newTarget (Name ''prototype'') = Some pv"
      "proto (cells h1 x) = Some (case pv of VRef p \<Rightarrow> p | _ \<Rightarrow> Object_prototype)" by blast
    have "cells h' a = cells h a" if "a < fresh h" for a
    proof -
      from that IH have "a \<noteq> x" "a < fresh h1" by auto
      with F have "cells h' a = cells h1 a" by simp
      with that IH show ?thesis by simp
    qed
    with IH F pv show ?thesis by auto
  qed
qed

lemma newObject_ok:
  assumes "newObject n h C args = ok (x, h')"
  shows "fresh h \<le> x" and "x < fresh h'" and "\<And>a. a < fresh h \<Longrightarrow> cells h' a = cells h a"
    and "\<exists>pv. getMember h C (Name ''prototype'') = Some pv
            \<and> proto (cells h' x) = Some (case pv of VRef p \<Rightarrow> p | _ \<Rightarrow> Object_prototype)"
  using Construct_frame [OF assms [unfolded newObject_def]] by blast+



subsection \<open>The steps of \<open>Mix\<close>\<close>

lemma createClass_ok:
  assumes "createClass h cs = ok (create, h')"
  shows "create = Suc (fresh h)" and "fresh h' = Suc (Suc (fresh h))"
    and "\<And>a. a < fresh h \<Longrightarrow> cells h' a = cells h a"
    and "getOwnProperty h' create (Name ''prototype'')
           = Some (dataProp (VRef (fresh h)) False False False)"
    and "construct (cells h' create) = Some (Create cs)"
    and "extensible (cells h' (fresh h))"
    and "\<exists>pv. getMember h (hd cs) (Name ''prototype'') = Some pv
               \<and> asProto pv = ok (proto (cells h' (fresh h)))"
    and "proto (cells h' create) = Some (hd cs)"
proof -
  from assms obtain init pv protoParent where
    g: "getMember h (hd cs) (Name ''prototype'') = Some pv" and a: "asProto pv = ok protoParent"
    and c: "create = Suc (fresh h)"
    and h': "h' = storeProp
        (h\<lparr>cells := (cells h)
              (fresh h := \<lparr>proto = protoParent, props = [], extensible = True, construct = None\<rparr>,
               Suc (fresh h) :=
                 \<lparr>proto = Some (hd cs),
                  props = [(Name ''length'', dataProp (VNum 0) False False True),
                           (Name ''name'', dataProp (VStr ''create'') False False True),
                           (Name ''prototype'', dataProp (VRef (fresh h)) False False False),
                           (SymMixOf, dataProp (VArr (map VRef cs)) True True True)],
                  extensible = True,
                  construct = Some (Create cs)\<rparr>),
            fresh := Suc (Suc (fresh h))\<rparr>)
        (fresh h) (Name ''constructor'') (dataProp (VRef (Suc (fresh h))) True False True)"
    by (auto simp: createClass_def alloc_def elim!: bindR_okE split: option.splits)
  show "create = Suc (fresh h)" by (rule c)
  show "fresh h' = Suc (Suc (fresh h))" by (simp add: h')
  show "cells h' a = cells h a" if "a < fresh h" for a using that by (simp add: h' storeProp_def)
  show "getOwnProperty h' create (Name ''prototype'')
           = Some (dataProp (VRef (fresh h)) False False False)"
    by (simp add: h' c getOwnProperty_def storeProp_def)
  show "construct (cells h' create) = Some (Create cs)"
    by (simp add: h' c storeProp_def)
  show "extensible (cells h' (fresh h))" by (simp add: h' storeProp_def)
  show "\<exists>pv. getMember h (hd cs) (Name ''prototype'') = Some pv
               \<and> asProto pv = ok (proto (cells h' (fresh h)))"
    using g a by (simp add: h' storeProp_def)
  show "proto (cells h' create) = Some (hd cs)" by (simp add: h' c storeProp_def)
qed

lemma Mix_okE:
  assumes "Mix h (first # second # others) = ok (M, h')"
  obtains fp top lst h1 l' h2 lpv lp e h3 h4 cp h5 where
    "getMember h first (Name ''prototype'') = Some (VRef fp)"
    "clonePrototypeDeep h fp = ok (top, lst, h1)"
    "linkPrototypes h1 (Some lst) (second # others) = ok (Some e, h2)"
    "getMember h2 (last (first # second # others)) (Name ''prototype'') = Some lpv"
    "asProto lpv = ok lp"
    "setPrototypeOf h2 e lp = ok h3"
    "createClass h3 (first # second # others) = ok (M, h4)"
    "getMember h4 M (Name ''prototype'') = Some (VRef cp)"
    "setPrototypeOf h4 cp (Some top) = ok h5"
    "assignStatics h5 M (first # second # others) = ok h'"
proof -
  from assms obtain fpv fp top lst h1 l' h2 lpv lp h3 create h4 cpv cp h5 where
    s: "getMember h first (Name ''prototype'') = Some fpv" "asObject fpv = ok fp"
    "clonePrototypeDeep h fp = ok (top, lst, h1)"
    "linkPrototypes h1 (Some lst) (second # others) = ok (l', h2)"
    "getMember h2 (last (first # second # others)) (Name ''prototype'') = Some lpv"
    "asProto lpv = ok lp"
    "(case l' of None \<Rightarrow> throw TypeError | Some l \<Rightarrow> setPrototypeOf h2 l lp) = ok h3"
    "createClass h3 (first # second # others) = ok (create, h4)"
    "getMember h4 create (Name ''prototype'') = Some cpv" "asObject cpv = ok cp"
    "setPrototypeOf h4 cp (Some top) = ok h5"
    "assignStatics h5 create (first # second # others) = ok h'" "M = create"
    unfolding Mix_def list.case
    by (auto simp del: linkPrototypes.simps assignStatics.simps last.simps elim!: bindR_okE)
  from s(2) have "fpv = VRef fp" by (auto simp: asObject_def split: val.splits)
  moreover from s(10) have "cpv = VRef cp" by (auto simp: asObject_def split: val.splits)
  moreover from s(7) obtain e where "l' = Some e" "setPrototypeOf h2 e lp = ok h3"
    by (cases l') auto
  ultimately show ?thesis using that s by blast
qed

lemma Mix_anatomy:
  assumes mix: "Mix h (first # second # others) = ok (M, h')"
    and cl: "closedBelow (fresh h) h"
    and old: "\<forall>S\<in>set (first # second # others). S < fresh h"
  obtains fp lst h1 e h2 lpv lp h3 h4 h5 seg where
    "getMember h first (Name ''prototype'') = Some (VRef fp)"
    "clonePrototypeDeep h fp = ok (fresh h, lst, h1)"
    "linkPrototypes h1 (Some lst) (second # others) = ok (Some e, h2)"
    "getMember h2 (last (first # second # others)) (Name ''prototype'') = Some lpv"
    "asProto lpv = ok lp"
    "setPrototypeOf h2 e lp = ok h3"
    "createClass h3 (first # second # others) = ok (M, h4)"
    "setPrototypeOf h4 (fresh h3) (Some (fresh h)) = ok h5"
    "assignStatics h5 M (first # second # others) = ok h'"
    "advance (fresh h) h h1" "advance (fresh h) h1 h2" "advance (fresh h) h2 h3"
    "advance (fresh h) h3 h4" "advance (fresh h) h4 h5" "advance (fresh h) h5 h'"
    "pathTo h2 (Some (fresh h)) seg (Some e)" "\<forall>q\<in>set seg. q < e" "fresh h \<le> e" "e < fresh h2"
    "closedBelow (fresh h2) h2"
    "\<forall>S\<in>set (first # second # others). classBelow (fresh h) h S \<longrightarrow>
        (\<exists>c\<in>set seg \<union> {e}. \<exists>v. getMember h2 S SymHasInstance = Some v \<and> recognises v c)"
    "\<forall>a<fresh h. \<not> constructorTarget h a \<longrightarrow> cells h' a = cells h a"
proof -
  let ?n = "fresh h"
  let ?cs = "first # second # others"
  from mix obtain fp top lst h1 l' h2 lpv lp e h3 h4 cp h5 where
    s: "getMember h first (Name ''prototype'') = Some (VRef fp)"
    "clonePrototypeDeep h fp = ok (top, lst, h1)"
    "linkPrototypes h1 (Some lst) (second # others) = ok (Some e, h2)"
    "getMember h2 (last ?cs) (Name ''prototype'') = Some lpv"
    "asProto lpv = ok lp"
    "setPrototypeOf h2 e lp = ok h3"
    "createClass h3 ?cs = ok (M, h4)"
    "getMember h4 M (Name ''prototype'') = Some (VRef cp)"
    "setPrototypeOf h4 cp (Some top) = ok h5"
    "assignStatics h5 M ?cs = ok h'"
    by (rule Mix_okE)
  note D = clonePrototypeDeep_ok [OF s(2) le_refl cl]
  have a1: "advance ?n h h1" using D(1) by (rule grows_advance)
  then have cl1: "closedBelow ?n h1" using cl by (rule closedBelow_advance)
  have pre: "lst < fresh h1" "?n \<le> lst" using D by simp_all
  from linkPrototypes_ok [OF s(3) pre cl1]
  obtain seg1 where L: "lst \<le> e" "e < fresh h2" "grows ?n {lst} h1 h2"
    "pathTo h2 (Some lst) seg1 (Some e)" "\<forall>q\<in>set seg1. q < e"
    and recs: "\<forall>S\<in>set (second # others). classBelow ?n h1 S \<longrightarrow>
              (\<exists>c\<in>set seg1 \<union> {e}. \<exists>v. getMember h2 S SymHasInstance = Some v \<and> recognises v c)"
    by blast
  have a2: "advance ?n h1 h2" using L(3) by (rule grows_advance)
  then have cl2: "closedBelow ?n h2" using cl1 by (rule closedBelow_advance)
  from D(5) obtain seg0 where p0: "pathTo h1 (Some top) seg0 (Some lst)" and b0: "\<forall>q\<in>set seg0. q < lst"
    by blast
  have p02: "pathTo h2 (Some top) seg0 (Some lst)"
  proof (subst pathTo_cong [where h = h1])
    fix q assume "q \<in> set seg0"
    with b0 pre have "q < fresh h1" "q \<notin> {lst}" by auto
    with L(3) show "proto (cells h2 q) = proto (cells h1 q)" by (rule grows_proto)
  qed (rule p0)
  from p02 L(4) have path: "pathTo h2 (Some top) (seg0 @ seg1) (Some e)" by (rule pathTo_append)
  have below: "\<forall>q\<in>set (seg0 @ seg1). q < e" using b0 L(1,5) by auto
  have f12: "fresh h \<le> fresh h1" "fresh h1 \<le> fresh h2"
    using a1 a2 by (simp_all add: advance_def)
  have e: "?n \<le> e" using D(2,3) L(1) by simp
  note s3 = setPrototypeOf_okD [OF s(6)]
  have k3: "\<forall>b<?n. cells h3 b = cells h2 b" using s3(3) e by auto
  have a3: "advance ?n h2 h3"
  proof (rule advance_same [OF _ cl2])
    show "fresh h2 \<le> fresh h3" by (simp add: s3)
  qed (rule k3)
  then have cl3: "closedBelow ?n h3" using cl2 by (rule closedBelow_advance)
  note c = createClass_ok [OF s(7)]
  have n3: "?n \<le> fresh h3" using f12 s3 by simp
  have k4: "\<forall>b<?n. cells h4 b = cells h3 b" using c(3) n3 by auto
  have a4: "advance ?n h3 h4"
  proof (rule advance_same [OF _ cl3])
    show "fresh h3 \<le> fresh h4" by (simp add: c)
  qed (rule k4)
  then have cl4: "closedBelow ?n h4" using cl3 by (rule closedBelow_advance)
  from c(4) s(8) have cp: "cp = fresh h3" by (simp add: getMember_own dataProp_def)
  note s5 = setPrototypeOf_okD [OF s(9)]
  have k5: "\<forall>b<?n. cells h5 b = cells h4 b" using s5(3) cp n3 by auto
  have a5: "advance ?n h4 h5"
  proof (rule advance_same [OF _ cl4])
    show "fresh h4 \<le> fresh h5" by (simp add: s5)
  qed (rule k5)
  then have cl5: "closedBelow ?n h5" using cl4 by (rule closedBelow_advance)
  have M: "?n \<le> M" using c(1) n3 by simp
  with old have notin: "M \<notin> set ?cs" by auto
  note st = assignStatics_ok [OF s(10) notin]
  have k6: "\<forall>b<?n. cells h' b = cells h5 b" using st M by auto
  have a6: "advance ?n h5 h'"
  proof (rule advance_same [OF _ cl5])
    show "fresh h5 \<le> fresh h'" using st by simp
  qed (rule k6)
  have I: "\<forall>a<?n. \<not> constructorTarget h a \<longrightarrow> cells h' a = cells h a"
  proof (intro allI impI)
    fix a assume a: "a < ?n" "\<not> constructorTarget h a"
    from D(1) L(3) have "grows ?n ({} \<union> {lst}) h h2" by (rule grows_trans)
    then have "cells h2 a = cells h a" using a by (rule grows_identical)
    with a(1) k3 k4 k5 k6 show "cells h' a = cells h a" by simp
  qed
  have cla2: "closedBelow (fresh h2) h2"
    using D(1) L(3) cl by (simp add: grows_def)
  have R: "\<forall>S\<in>set ?cs. classBelow ?n h S \<longrightarrow>
        (\<exists>c\<in>set (seg0 @ seg1) \<union> {e}. \<exists>v. getMember h2 S SymHasInstance = Some v \<and> recognises v c)"
  proof (intro ballI impI)
    fix S assume S: "S \<in> set ?cs" and cb: "classBelow ?n h S"
    show "\<exists>c\<in>set (seg0 @ seg1) \<union> {e}. \<exists>v. getMember h2 S SymHasInstance = Some v \<and> recognises v c"
    proof (cases "S \<in> set (second # others)")
      case True
      moreover from cb a1 have "classBelow ?n h1 S" by (blast intro: classBelow_advance)
      ultimately show ?thesis using recs by auto
    next
      case False
      with S have "S = first" by simp
      with cb obtain p0 m0 mc where Sn: "first < ?n" and p0: "p0 < ?n"
        and o1: "getOwnProperty h first (Name ''prototype'') = Some m0" "pval m0 = VRef p0"
        and o2: "getOwnProperty h p0 (Name ''constructor'') = Some mc" "pval mc = VRef first"
        unfolding classBelow_def by auto
      from o1 s(1) have "fp = p0" by (simp add: getMember_own)
      with D(6) p0 Sn o2 obtain v where "getMember h1 first SymHasInstance = Some v" "recognises v top"
        by blast
      with a2 Sn obtain v' where "getMember h2 first SymHasInstance = Some v'" "recognises v' top"
        by (blast dest: advance_recognises)
      moreover from pathTo_head [OF path] have "top \<in> set (seg0 @ seg1) \<union> {e}" .
      ultimately show ?thesis using \<open>S = first\<close> by blast
    qed
  qed
  show ?thesis
    using that [OF s(1) s(2) [unfolded D(2)] s(3-7) s(9) [unfolded cp D(2)] s(10)
                   a1 a2 a3 a4 a5 a6 path [unfolded D(2)] below e L(2) cla2 R I] .
qed

lemma Mix_advance:
  assumes mix: "Mix h cs = ok (M, h')" and cl: "closedBelow (fresh h) h"
    and old: "\<forall>S\<in>set cs. S < fresh h"
  shows "advance (fresh h) h h'"
proof (cases cs)
  case Nil
  with mix have e: "emptyClass h = (M, h')" by (simp add: Mix_def)
  show ?thesis
  proof (rule advance_same [OF _ cl])
    show "fresh h \<le> fresh h'"
      using e by (auto simp: emptyClass_def alloc_def)
    show "\<forall>b<fresh h. cells h' b = cells h b"
      using e by (auto simp: emptyClass_def alloc_def storeProp_def)
  qed
next
  case (Cons first rest)
  show ?thesis
  proof (cases rest)
    case Nil
    with Cons mix show ?thesis by (simp add: Mix_def)
  next
    case (Cons second others)
    with \<open>cs = first # rest\<close> mix old
    have m: "Mix h (first # second # others) = ok (M, h')"
      and o: "\<forall>S\<in>set (first # second # others). S < fresh h" by simp_all
    from m cl o obtain h1 h2 h3 h4 h5 where
      "advance (fresh h) h h1" "advance (fresh h) h1 h2" "advance (fresh h) h2 h3"
      "advance (fresh h) h3 h4" "advance (fresh h) h4 h5" "advance (fresh h) h5 h'"
      by (rule Mix_anatomy)
    then show ?thesis by (blast intro: advance_trans)
  qed
qed

lemma Mix_identical:
  assumes mix: "Mix h cs = ok (M, h')" and cl: "closedBelow (fresh h) h"
    and old: "\<forall>S\<in>set cs. S < fresh h"
    and a: "a < fresh h" "\<not> constructorTarget h a"
  shows "cells h' a = cells h a"
proof (cases cs)
  case Nil
  with mix have "emptyClass h = (M, h')" by (simp add: Mix_def)
  with a(1) show ?thesis by (auto simp: emptyClass_def alloc_def storeProp_def)
next
  case (Cons first rest)
  show ?thesis
  proof (cases rest)
    case Nil
    with Cons mix show ?thesis by (simp add: Mix_def)
  next
    case (Cons second others)
    with \<open>cs = first # rest\<close> mix old
    have m: "Mix h (first # second # others) = ok (M, h')"
      and o: "\<forall>S\<in>set (first # second # others). S < fresh h" by simp_all
    from m cl o have "\<forall>a<fresh h. \<not> constructorTarget h a \<longrightarrow> cells h' a = cells h a"
      by (rule Mix_anatomy)
    with a show ?thesis by simp
  qed
qed




text \<open>
  The prototype chain of the composite's \<open>prototype\<close> object is finite, consists of
  allocated objects and passes through a duplicate that each source class recognises.
\<close>

lemma Mix_chain:
  assumes mix: "Mix h cs = ok (M, h')" and len: "2 \<le> length cs" and cl: "closedBelow (fresh h) h"
    and classes: "\<forall>S\<in>set cs. classBelow (fresh h) h S"
  obtains cp ps where
    "getOwnProperty h' M (Name ''prototype'') = Some (dataProp (VRef cp) False False False)"
    "pathTo h' (Some cp) ps None" "\<forall>q\<in>set ps. q < fresh h'" "closedBelow (fresh h') h'"
    "\<forall>S\<in>set cs. \<exists>c\<in>set ps. \<exists>v. getMember h' S SymHasInstance = Some v \<and> recognises v c"
proof -
  let ?n = "fresh h"
  from len obtain first second others where cs: "cs = first # second # others"
    by (cases cs; cases "tl cs") auto
  from classes have old: "\<forall>S\<in>set cs. S < ?n" by (simp add: classBelow_def)
  from mix cl old obtain fp h1 e h2 lpv lp h3 h4 h5 seg where
    A: "getMember h first (Name ''prototype'') = Some (VRef fp)"
       "getMember h2 (last cs) (Name ''prototype'') = Some lpv" "asProto lpv = ok lp"
       "setPrototypeOf h2 e lp = ok h3"
       "createClass h3 cs = ok (M, h4)"
       "setPrototypeOf h4 (fresh h3) (Some ?n) = ok h5"
       "assignStatics h5 M cs = ok h'"
    and a: "advance ?n h h1" "advance ?n h1 h2" "advance ?n h2 h3"
       "advance ?n h3 h4" "advance ?n h4 h5" "advance ?n h5 h'"
    and P: "pathTo h2 (Some ?n) seg (Some e)" "\<forall>q\<in>set seg. q < e" "?n \<le> e" "e < fresh h2"
       "closedBelow (fresh h2) h2"
    and R: "\<forall>S\<in>set cs. classBelow ?n h S \<longrightarrow>
        (\<exists>c\<in>set seg \<union> {e}. \<exists>v. getMember h2 S SymHasInstance = Some v \<and> recognises v c)"
    unfolding cs by (rule Mix_anatomy)
  have a02: "advance ?n h h2" using a by (blast intro: advance_trans)
  have a03: "advance ?n h h3" using a by (blast intro: advance_trans)
  have a2': "advance ?n h2 h'" using a by (blast intro: advance_trans)
  have cl2: "closedBelow ?n h2" using a02 cl by (rule closedBelow_advance)
  have cl4: "closedBelow ?n h4" using a cl by (blast intro: closedBelow_advance)
  \<comment> \<open>the last source's own prototype ends the chain of duplicates\<close>
  from len have "last cs \<in> set cs" by (cases cs) auto
  with classes a02 have "classBelow ?n h2 (last cs)" by (blast intro: classBelow_advance)
  then obtain pn where pn: "pn < ?n" "getMember h2 (last cs) (Name ''prototype'') = Some (VRef pn)"
    by (rule classBelow_prototype)
  with A(2,3) have lp: "lp = Some pn" by (auto simp: asProto_def)
  have f2: "?n \<le> fresh h2" using a02 by (simp add: advance_def)
  have g3: "grows ?n {e} h2 h3"
    using A(4) P(3) _ cl2 by (rule setPrototypeOf_grows) (use lp pn f2 in simp)
  then have c3: "closedBelow (fresh h3) h3" using P(5) by (simp add: grows_def)
  note s3 = setPrototypeOf_okD [OF A(4)]
  have p3: "pathTo h3 (Some ?n) seg (Some e)"
  proof (subst pathTo_cong [where h = h2])
    fix q assume "q \<in> set seg"
    with P(2) have "q \<noteq> e" by auto
    with s3(3) show "proto (cells h3 q) = proto (cells h2 q)" by simp
  qed (rule P(1))
  \<comment> \<open>the class \<open>create\<close> and its prototype object\<close>
  note c = createClass_ok [OF A(5)]
  let ?cp = "fresh h3"
  have f3: "fresh h2 = fresh h3" by (simp add: s3)
  from classes cs a03 have "classBelow ?n h3 first" by (auto intro: classBelow_advance)
  then obtain fp0 where fp0: "fp0 < ?n" "getMember h3 first (Name ''prototype'') = Some (VRef fp0)"
    by (rule classBelow_prototype)
  with c(7) cs have pcp: "proto (cells h4 ?cp) = Some fp0" by (auto simp: asProto_def)
  have c4: "closedBelow (fresh h4) h4"
    unfolding closedBelow_def
  proof (intro allI impI)
    fix x b assume x: "x < fresh h4" and b: "proto (cells h4 x) = Some b"
    consider "x < fresh h3" | "x = ?cp" | "x = M" using x c(1,2) by linarith
    then show "b < fresh h4"
    proof cases
      case 1
      with c(3) b have "proto (cells h3 x) = Some b" by simp
      with 1 c3 have "b < fresh h3" by (auto simp: closedBelow_def)
      with c(2) show ?thesis by simp
    next
      case 2
      with b pcp fp0 f2 f3 c(2) show ?thesis by simp
    next
      case 3
      with b c(8) cs old f2 f3 c(2) show ?thesis by auto
    qed
  qed
  have p4: "pathTo h4 (Some ?n) seg (Some e)"
  proof (subst pathTo_cong [where h = h3])
    fix q assume "q \<in> set seg"
    with P(2,4) f3 have "q < fresh h3" by auto
    with c(3) show "proto (cells h4 q) = proto (cells h3 q)" by simp
  qed (rule p3)
  \<comment> \<open>the cycle check of the last \<open>setPrototypeOf\<close> walked the whole chain\<close>
  note s5 = setPrototypeOf_okD [OF A(6)]
  from pcp fp0 have "Some ?n \<noteq> getPrototypeOf h4 ?cp" by (simp add: getPrototypeOf_def)
  then have "hasPrototype_loop h4 (Some ?n) ?cp = Some False" by (rule s5(7))
  then obtain ps where ps: "pathTo h4 (Some ?n) ps None" "?cp \<notin> set ps"
    using hasPrototype_loop_False by blast
  from pathTo_prefix [OF p4 ps(1)] have sub: "set seg \<union> {e} \<subseteq> set ps" .
  have "pathTo h5 (Some ?n) ps None"
  proof (subst pathTo_cong [where h = h4])
    fix q assume "q \<in> set ps"
    with ps(2) have "q \<noteq> ?cp" by auto
    with s5(3) show "proto (cells h5 q) = proto (cells h4 q)" by simp
  qed (rule ps(1))
  with s5(1) have p5: "pathTo h5 (Some ?cp) (?cp # ps) None" by simp
  have f4: "?n < fresh h4" using f2 f3 c(2) by simp
  have "grows ?n {?cp} h4 h5"
    using A(6) _ _ cl4 by (rule setPrototypeOf_grows) (use f2 f3 f4 in simp_all)
  then have c5: "closedBelow (fresh h5) h5" using c4 by (simp add: grows_def)
  \<comment> \<open>copying the statics touches no prototype link\<close>
  have M: "M \<noteq> ?cp" "?n \<le> M" using c(1) f2 f3 by simp_all
  with old have notin: "M \<notin> set cs" by auto
  note st = assignStatics_ok [OF A(7) notin]
  have p': "pathTo h' (Some ?cp) (?cp # ps) None"
    by (subst pathTo_cong [where h = h5]) (use st p5 in simp_all)
  have c': "closedBelow (fresh h') h'"
    using c5 st by (simp add: closedBelow_def)
  have "?cp < fresh h'" using st s5(2) c(2) by simp
  with pathTo_below [OF p' c'] have below: "\<forall>q\<in>set (?cp # ps). q < fresh h'" by simp
  from c(4) s5(3) [OF M(1)]
  have "getOwnProperty h5 M (Name ''prototype'') = Some (dataProp (VRef ?cp) False False False)"
    by (simp add: getOwnProperty_def)
  with st have own: "getOwnProperty h' M (Name ''prototype'') = Some (dataProp (VRef ?cp) False False False)"
    by (simp add: dataProp_def)
  have rec: "\<forall>S\<in>set cs. \<exists>c\<in>set (?cp # ps). \<exists>v. getMember h' S SymHasInstance = Some v \<and> recognises v c"
  proof
    fix S assume S: "S \<in> set cs"
    with R classes obtain c v where c: "c \<in> set seg \<union> {e}"
      and v: "getMember h2 S SymHasInstance = Some v" "recognises v c" by blast
    from S old have "S < ?n" by simp
    from advance_recognises [OF a2' this v]
    obtain v' where "getMember h' S SymHasInstance = Some v'" "recognises v' c" by blast
    moreover from c sub have "c \<in> set (?cp # ps)" by auto
    ultimately show "\<exists>c\<in>set (?cp # ps). \<exists>v. getMember h' S SymHasInstance = Some v \<and> recognises v c"
      by blast
  qed
  from own p' below c' rec show ?thesis by (rule that)
qed

section \<open>\<open>reuse\<close>: claims C9 and C10\<close>

text \<open>
  C9, as amended. For a container that is an extensible object and on whose prototype
  chain (itself included) no object holds the reuse slot, the first call
  \<open>reuse(container, valueA)\<close> stores \<open>valueA\<close> in a slot that is not writable, enumerable or
  configurable and returns it; every later call \<open>reuse(container, valueB)\<close> returns
  \<open>valueA\<close>, whatever \<open>valueB\<close> is, and leaves the heap as it was.
\<close>

theorem reuse_write_once:
  assumes "hasProperty h c SymReuse = Some False" and "extensible (cells h c)"
  shows "\<exists>h1. reuse h (VRef c) a = ok (a, h1)
           \<and> getOwnProperty h1 c SymReuse = Some (dataProp a False False False)
           \<and> (\<forall>b. reuse h1 (VRef c) b = ok (a, h1))"
proof -
  from assms(1) have absent: "findProperty h c SymReuse = Some None"
    by (auto simp: hasProperty_def)
  then have own: "getOwnProperty h c SymReuse = None"
    by (rule findProperty_absent_own)
  let ?h1 = "storeProp h c SymReuse (dataProp a False False False)"
  have first: "reuse h (VRef c) a = ok (a, ?h1)"
    using assms own by (simp add: reuse_def defineProperty_def)
  have stored: "getOwnProperty ?h1 c SymReuse = Some (dataProp a False False False)"
    by simp
  then have found: "findProperty ?h1 c SymReuse = Some (Some (dataProp a False False False))"
    by (rule findProperty_own)
  have later: "reuse ?h1 (VRef c) b = ok (a, ?h1)" for b
    using found by (simp add: reuse_def hasProperty_def getMember_def dataProp_def)
  from first stored later show ?thesis by blast
qed

text \<open>The ordinary object at address 2 of \<open>reuseHeap\<close> is such a container.\<close>

theorem reuse_write_once_witness:
  "\<exists>h1. reuse reuseHeap (VRef 2) (VStr ''A'') = ok (VStr ''A'', h1)
           \<and> getOwnProperty h1 2 SymReuse = Some (dataProp (VStr ''A'') False False False)
           \<and> (\<forall>b. reuse h1 (VRef 2) b = ok (VStr ''A'', h1))"
proof -
  have "hasProperty reuseHeap 2 SymReuse = Some False"
    by (simp add: hasProperty_def findProperty.simps getOwnProperty_def getPrototypeOf_def
        reuseHeap_def realm_def plainObj_def)
  moreover have "extensible (cells reuseHeap 2)"
    by (simp add: reuseHeap_def plainObj_def)
  ultimately show ?thesis
    by (rule reuse_write_once)
qed

text \<open>
  C9 as stated fails when the container inherits the slot: after \<open>reuse(p, "P")\<close> on the
  prototype \<open>p\<close> (address 2) of the container (address 3), the first call
  \<open>reuse(container, "A")\<close> finds the slot through \<open>in\<close> and returns \<open>"P"\<close>.
\<close>

theorem reuse_inherited_slot_counterexample:
  "resultOf (reuseTwice reuseHeap (VRef 2) (VStr ''P'') (VRef 3) (VStr ''A'')) = ok (VStr ''P'')"
  by (simp add: resultOf_def reuseTwice_def reuse_def hasProperty_def getMember_def
      findProperty.simps getOwnProperty_def getPrototypeOf_def defineProperty_def
      storeProp_def storeObj_def dataProp_def reuseHeap_def realm_def plainObj_def)

text \<open>
  C10, as amended. On a container that is an object (with a finite prototype chain, as
  every object has), \<open>reuse\<close> returns normally exactly when the slot is already visible on
  the container or the container is extensible.
\<close>

theorem reuse_returns:
  assumes "findProperty h c SymReuse = Some r"
  shows "(\<exists>v' h'. reuse h (VRef c) v = ok (v', h')) = (r \<noteq> None \<or> extensible (cells h c))"
proof (cases r)
  case None
  with assms have "getOwnProperty h c SymReuse = None"
    by (simp add: findProperty_absent_own)
  with assms None show ?thesis
    by (simp add: reuse_def hasProperty_def defineProperty_def)
next
  case (Some p)
  with assms show ?thesis
    by (simp add: reuse_def hasProperty_def getMember_def)
qed

text \<open>Both sides of the equivalence occur: the extensible object 2 and the non-extensible object 4.\<close>

theorem reuse_returns_witness:
  "(\<exists>v' h'. reuse reuseHeap (VRef 2) (VNum 7) = ok (v', h'))
     \<and> extensible (cells reuseHeap 2)
     \<and> \<not> (\<exists>v' h'. reuse reuseHeap (VRef 4) (VNum 7) = ok (v', h'))
     \<and> \<not> extensible (cells reuseHeap 4)"
proof -
  have a: "findProperty reuseHeap 2 SymReuse = Some None"
    by (simp add: findProperty.simps getOwnProperty_def getPrototypeOf_def
        reuseHeap_def realm_def plainObj_def)
  have b: "findProperty reuseHeap 4 SymReuse = Some None"
    by (simp add: findProperty.simps getOwnProperty_def getPrototypeOf_def
        reuseHeap_def realm_def plainObj_def)
  have e: "extensible (cells reuseHeap 2)" "\<not> extensible (cells reuseHeap 4)"
    by (simp_all add: reuseHeap_def plainObj_def)
  show ?thesis
    using reuse_returns [OF a, of "VNum 7"] reuse_returns [OF b, of "VNum 7"] e by simp
qed

text \<open>
  C10 as stated fails on a container that is not extensible and does not hold the slot:
  \<open>Object.defineProperty\<close> throws.
\<close>

theorem reuse_frozen_counterexample:
  "reuse reuseHeap (VRef 4) (VNum 7) = throw TypeError"
  by (simp add: reuse_def hasProperty_def findProperty.simps getOwnProperty_def
      getPrototypeOf_def defineProperty_def reuseHeap_def realm_def plainObj_def)

section \<open>Single-source composition: claim C6\<close>

text \<open>
  C6. Composing a list of exactly one source returns that source itself, the same
  constructor object, and changes nothing in the heap.
\<close>

theorem Mix_single_source: "Mix h [S] = ok (S, h)"
  by (simp add: Mix_def)

section \<open>Running the code on the example heaps\<close>

lemma bindR_weak_cong: "m = m' \<Longrightarrow> bindR m f = bindR m' f"
  by simp

lemmas Construct_numeral = Construct.simps(2) [of "pred_numeral k", folded numeral_eq_Suc] for k

lemmas run_defs = Mix_def liftD_def getMember_def findProperty.simps
  getOwnProperty_def getPrototypeOf_def asObject_def asProto_def clonePrototypeDeep_def
  clonePrototype_def alloc_def setMember_def storeProp_def storeObj_def dataProp_def
  defineProperty_def clonePrototypeDeep_loop.simps Object_prototype_def setPrototypeOf_def
  hasPrototype_loop.simps hasPrototype_def createClass_def objectAssign_def ownKeys_def
  newObject_def Construct_numeral instanceof_def ordinaryHasInstance_def
  spread_def parameterAt_def
  realm_def classObj_def protoObj_def plainObj_def classA_def classB_def
  memberOfNew_def memberOfMixed_def staticOfMixed_def instanceofNew_def
  instanceofNewAfterMix_def instanceofMixedAfterMix_def

lemma abHeap_closed: "closedBelow (fresh abHeap) abHeap"
  by (auto simp: closedBelow_def abHeap_def realm_def classObj_def protoObj_def plainObj_def
      classA_def classB_def split: if_splits)

lemma abHeap_targets: "\<not> constructorTarget abHeap 3"
  by (auto simp: constructorTarget_def getOwnProperty_def abHeap_def realm_def classObj_def
      protoObj_def plainObj_def classA_def classB_def dataProp_def split: if_splits)

lemma abHeap_classes: "isClass abHeap 2" "isClass abHeap 4"
  by (simp_all add: isClass_def classBelow_def abHeap_def run_defs)

lemma mixAndNew_okD:
  "mixAndNew n h cs groups = ok ((M, h'), (x, h'')) \<Longrightarrow>
     Mix h cs = ok (M, h') \<and> newObject n h' M groups = ok (x, h'')"
  by (auto simp: mixAndNew_def elim!: bindR_okE)

lemma abHeap_mixAndNew:
  "\<exists>r. mixAndNew 3 abHeap [2, 4] [VArr [VStr ''x''], VArr [VStr ''y'']] = ok r"
  by (simp add: mixAndNew_def abHeap_def run_defs cong: bindR_weak_cong)



lemma abHeap_predicates:
  "getMember abHeap 2 SymHasInstance = Some (VFn FunctionPrototypeHasInstance)"
  by (simp add: abHeap_def run_defs)

section \<open>What composition does to the sources: claim C8\<close>

text \<open>
  In a heap whose prototype links lead to allocated objects, a call of \<open>Mix\<close> on allocated
  sources that returns leaves every object that existed before the call unaltered: its
  prototype link, its flags and all its own members other than \<open>Symbol.hasInstance\<close> are
  what they were, and its prototype link does not lead to an object allocated by the call,
  so that its prototype chain is the one it had and no duplicate is on it. Where looking
  up \<open>Symbol.hasInstance\<close> on such an object gave \<open>v\<close> before the call, it gives afterwards
  \<open>v\<close> or a tower of wrappers around \<open>v\<close>, each testing for a duplicate that the call
  allocated. An object that is not the value of any \<open>constructor\<close> member, as the
  prototype object of a class is, is left identical.
\<close>

lemma Mix_leaves_structure:
  assumes "Mix h cs = ok (M, h')" and "closedBelow (fresh h) h" and "\<forall>S\<in>set cs. S < fresh h"
    and "a < fresh h"
  shows "unaltered (cells h a) (cells h' a)
     \<and> (\<forall>b. proto (cells h' a) = Some b \<longrightarrow> b < fresh h)
     \<and> (\<forall>v. getMember h a SymHasInstance = Some v \<longrightarrow>
           (\<exists>v'. getMember h' a SymHasInstance = Some v' \<and> consults (fresh h) v' v))
     \<and> (\<not> constructorTarget h a \<longrightarrow> cells h' a = cells h a)"
proof -
  note adv = Mix_advance [OF assms(1-3)]
  from adv assms(2) have "closedBelow (fresh h) h'" by (rule closedBelow_advance)
  with assms(4) have "\<forall>b. proto (cells h' a) = Some b \<longrightarrow> b < fresh h"
    by (simp add: closedBelow_def)
  moreover have "\<not> constructorTarget h a \<longrightarrow> cells h' a = cells h a"
    using Mix_identical [OF assms(1-3)] assms(4) by blast
  ultimately show ?thesis using adv assms(4) by (simp add: advance_def)
qed

text \<open>
  C8 does not hold of the code: the augmentation of the type-check predicate is not
  additive. After \<open>Mix(A, B)\<close> the predicate of \<open>B\<close> is a wrapper around the built-in
  predicate that \<open>B\<close> had, over the duplicate made for \<open>B\<close>; but the wrapper calls the
  previous predicate as a plain function, the built-in one then runs with \<open>this\<close> undefined
  and answers false, and an instance of \<open>B\<close>, which passed the check for \<open>B\<close> before the
  call, fails it afterwards.
\<close>

theorem augmentation_not_additive:
  "predicateAfterMix abHeap [2, 4] 4
     = ok (VFn (HasInstanceWrapper (VFn FunctionPrototypeHasInstance) 7))
   \<and> instanceofNew 3 abHeap 4 [VStr ''y''] 4 = ok True
   \<and> instanceofNewAfterMix 3 abHeap 4 [VStr ''y''] [2, 4] 4 = ok False"
  by (simp add: abHeap_def predicateAfterMix_def run_defs cong: bindR_weak_cong)

section \<open>Static members: claim C5\<close>




section \<open>The composite constructor: claim C4\<close>




text \<open>
  The writes of the composite constructor are assignments along the prototype chain of
  the object under construction, on which the duplicates lie. A read-only member \<open>b\<close> on
  the prototype object of the first source makes \<open>Object.assign\<close> throw when it copies \<open>b\<close>
  from the throwaway instance of \<open>B\<close>; a read-only member \<open>a\<close> on the prototype object of
  the second source makes the constructor of \<open>A\<close> throw at \<open>this.a = arg\<close>.
\<close>

lemma read_only_member_on_the_chain:
  "memberOfMixed 3 readOnlyHeap [6, 4] [VArr [VStr ''x''], VArr [VStr ''y'']] (Name ''b'')
     = throw TypeError"
  "memberOfMixed 3 readOnlyHeap [2, 8] [VArr [VStr ''x''], VArr [VStr ''y'']] (Name ''a'')
     = throw TypeError"
  "memberOfMixed 3 readOnlyHeap [2, 4] [VArr [VStr ''x''], VArr [VStr ''y'']] (Name ''b'')
     = ok (VStr ''y'')"
  by (simp_all add: readOnlyHeap_def run_defs cong: bindR_weak_cong)

section \<open>Type checks on composite instances: claims C1, C2 and C7\<close>

text \<open>
  C1. Let \<open>cs\<close> be a list of at least two source classes in a heap whose prototype links
  lead to allocated objects. If \<open>Mix\<close> returns the composite \<open>M\<close> and \<open>new M(...groups)\<close>
  returns the instance \<open>x\<close>, under any bound on the depth of constructor calls, then
  \<open>x instanceof S\<close> is true for every source \<open>S\<close> of the list.
\<close>

theorem Mix_instance_of_every_source:
  assumes mix: "Mix h cs = ok (M, h')" and len: "2 \<le> length cs"
    and cl: "closedBelow (fresh h) h" and classes: "\<forall>S\<in>set cs. isClass h S"
    and new: "newObject n h' M groups = ok (x, h'')" and S: "S \<in> set cs"
  shows "instanceof h'' x S = ok True"
proof -
  from classes have cb: "\<forall>S\<in>set cs. classBelow (fresh h) h S" by (simp add: isClass_def)
  then have old: "\<forall>S\<in>set cs. S < fresh h" by (simp add: classBelow_def)
  from mix len cl cb obtain cp ps where
    own: "getOwnProperty h' M (Name ''prototype'') = Some (dataProp (VRef cp) False False False)"
    and path: "pathTo h' (Some cp) ps None" and below: "\<forall>q\<in>set ps. q < fresh h'"
    and c': "closedBelow (fresh h') h'"
    and rec: "\<forall>S\<in>set cs. \<exists>c\<in>set ps. \<exists>v. getMember h' S SymHasInstance = Some v \<and> recognises v c"
    by (rule Mix_chain)
  from newObject_ok(4) [OF new] obtain pv where pv: "getMember h' M (Name ''prototype'') = Some pv"
    and x: "proto (cells h'' x) = Some (case pv of VRef p \<Rightarrow> p | _ \<Rightarrow> Object_prototype)"
    by blast
  from own pv have "pv = VRef cp" by (simp add: getMember_own dataProp_def)
  with x have px: "getPrototypeOf h'' x = Some cp" by (simp add: getPrototypeOf_def)
  have same: "\<forall>b<fresh h'. cells h'' b = cells h' b" using newObject_ok(3) [OF new] by simp
  have "pathTo h'' (Some cp) ps None"
  proof (subst pathTo_cong [where h = h'])
    fix q assume "q \<in> set ps"
    with below same show "proto (cells h'' q) = proto (cells h' q)" by simp
  qed (rule path)
  with px have chain: "pathTo h'' (getPrototypeOf h'' x) ps None" by simp
  from rec S obtain c v where c: "c \<in> set ps" and v: "getMember h' S SymHasInstance = Some v"
    and r: "recognises v c" by blast
  from mix cl old have adv: "advance (fresh h) h h'" by (rule Mix_advance)
  from classes S obtain v0 where v0: "getMember h S SymHasInstance = Some v0" "benign v0"
    by (auto simp: isClass_def)
  from old S have "S < fresh h" by simp
  from advance_getMember [OF adv this v0(1)]
  obtain v' where "getMember h' S SymHasInstance = Some v'" "consults (fresh h) v' v0" by blast
  with v v0(2) have b: "benign v" by (auto dest: consults_benign)
  from r obtain orig clone where f: "v = VFn (HasInstanceWrapper orig clone)"
    using recognises_VFn by blast
  have "fresh h \<le> fresh h'" using adv by (simp add: advance_def)
  with old S have "S < fresh h'" by auto
  with v have "getMember h'' S SymHasInstance = Some v"
    using c' same by (rule getMember_frame)
  moreover have "callHasInstance h'' (HasInstanceWrapper orig clone) (VRef S) x = ok True"
    using b r chain c unfolding f by (rule callHasInstance_recognised)
  ultimately show ?thesis by (simp add: instanceof_def f)
qed

text \<open>The classes \<open>A\<close> and \<open>B\<close> of \<open>abHeap\<close>, composed and instantiated.\<close>

theorem Mix_instance_of_every_source_witness:
  "\<exists>M h' x h''. Mix abHeap [2, 4] = ok (M, h')
      \<and> newObject 3 h' M [VArr [VStr ''x''], VArr [VStr ''y'']] = ok (x, h'')
      \<and> instanceof h'' x 2 = ok True \<and> instanceof h'' x 4 = ok True"
proof -
  from abHeap_mixAndNew obtain M h' x h'' where
    "mixAndNew 3 abHeap [2, 4] [VArr [VStr ''x''], VArr [VStr ''y'']] = ok ((M, h'), (x, h''))"
    by (metis surj_pair)
  then have mix: "Mix abHeap [2, 4] = ok (M, h')"
    and new: "newObject 3 h' M [VArr [VStr ''x''], VArr [VStr ''y'']] = ok (x, h'')"
    by (simp_all add: mixAndNew_okD)
  have classes: "\<forall>S\<in>set [2, 4]. isClass abHeap S" using abHeap_classes by simp
  have "instanceof h'' x 2 = ok True"
    by (rule Mix_instance_of_every_source [OF mix _ abHeap_closed classes new]) simp_all
  moreover have "instanceof h'' x 4 = ok True"
    by (rule Mix_instance_of_every_source [OF mix _ abHeap_closed classes new]) simp_all
  ultimately show ?thesis using mix new by blast
qed

text \<open>
  C2 does not hold of the code. The wrapper calls \<open>originalInstanceOf\<close> as a plain
  function; the built-in predicate then runs with \<open>this\<close> undefined and answers false.
  An instance of \<open>A\<close> is an instance of \<open>A\<close> before \<open>Mix(A, B)\<close> and is none after it.
\<close>

theorem native_check_lost_after_Mix:
  "instanceofNew 3 abHeap 2 [VStr ''x''] 2 = ok True
   \<and> instanceofNewAfterMix 3 abHeap 2 [VStr ''x''] [2, 4] 2 = ok False"
  by (simp add: abHeap_def run_defs cong: bindR_weak_cong)

text \<open>
  C7 does not hold of the code. \<open>clonePrototype\<close> reads \<open>originalInstanceOf\<close> through the
  constructor's own prototype chain, so the predicate of a subclass wraps the augmented
  predicate of its parent: after \<open>M = Mix(A, B)\<close> and \<open>Mix(A1, B)\<close>, with \<open>A1 extends A\<close>, an
  instance of \<open>M\<close> passes the check for \<open>A1\<close>, although it is no instance of \<open>A1\<close> and no
  composition with \<open>A1\<close> built it.
\<close>

theorem subclass_check_false_positive:
  "instanceofMixedAfterMix 3 subclassHeap [2, 4] [6, 4] [VArr [], VArr []] 6 = ok True"
  by (simp add: subclassHeap_def run_defs cong: bindR_weak_cong)

section \<open>Members of ancestors: claim C3\<close>

text \<open>
  C3 does not hold of the code. The loop of \<open>Mix\<close> advances \<open>lastPrototype\<close> to the head of
  the duplicate chain it has just attached, not to its end, so the next source's
  duplicates replace the duplicates of the ancestors. With \<open>B1 extends B0\<close> and \<open>m\<close>
  defined by \<open>B0\<close>, an instance of \<open>B1\<close> has \<open>m\<close> and an instance of \<open>Mix(A, B1, C)\<close> has not.
\<close>

theorem ancestor_member_lost:
  "memberOfNew 3 ancestryHeap 6 [] (Name ''m'') = ok (VStr ''m'')
   \<and> memberOfMixed 3 ancestryHeap [2, 6, 8] [VArr [], VArr [], VArr []] (Name ''m'') = ok VUndefined"
  by (simp add: ancestryHeap_def run_defs cong: bindR_weak_cong)

end
